theory Spec2Isabelle
  imports Main "HOL-Library.Sublist" "HOL-Library.Word"
begin

section \<open>The rule engine of gen\_repos.py\<close>

text \<open>
  Python strings are sequences of code points. They are modelled as \<open>string\<close>, a list of
  \<open>char\<close>, each \<open>char\<close> standing for one code point in the range 0..255; the case functions
  below are Python's \<open>str.isupper\<close> and \<open>str.lower\<close> on that range.
\<close>

subsection \<open>replace\_content\<close>

text \<open>
  \<open>re.sub(old, new, content)\<close> for a pattern that is a literal, non-empty text: the matches
  are found from left to right and do not overlap, each is replaced by \<open>new\<close>, and the text
  after a match is scanned from the end of that match. Every pattern of the rule list is
  such a literal; the regular expression \<open>bio\.tools\<close> of the last rule escapes its dot
  and so stands for the literal text \<open>bio.tools\<close>.
\<close>

function re_sub :: "string \<Rightarrow> string \<Rightarrow> string \<Rightarrow> string" where
  "re_sub old new [] = []"
| "re_sub old new (c # cs) =
     (if old \<noteq> [] \<and> prefix old (c # cs)
      then new @ re_sub old new (drop (length old) (c # cs))
      else c # re_sub old new cs)"
  by pat_completeness auto
termination
  by (relation "measure (\<lambda>(old, new, s). length s)") (auto simp: neq_Nil_conv)

definition replacements :: "(string \<times> string) list" where
  "replacements =
     [(''tools'', ''agents''), (''Tools'', ''Agents''),
      (''tool'', ''agent''), (''Tool'', ''Agent''),
      (''biotool'', ''bioagent''), (''biotools'', ''bioagents''),
      (''BioTools'', ''BioAgents''), (''BioTool'', ''BioAgent''),
      (''elixir'', ''iechor''), (''Elixir'', ''iEchor''),
      (''ELIXIR'', ''IECHOR''), (''bio.tools'', ''hub.bioagents.tech'')]"

text \<open>The loop \<open>for old, new in replacements: content = re.sub(old, new, content)\<close>.\<close>

fun apply_rules :: "(string \<times> string) list \<Rightarrow> string \<Rightarrow> string" where
  "apply_rules [] content = content"
| "apply_rules ((old, new) # rs) content = apply_rules rs (re_sub old new content)"

definition replace_content :: "string \<Rightarrow> string" where
  "replace_content content = apply_rules replacements content"

subsection \<open>camel\_to\_kebab\<close>

text \<open>The character classes \<open>[A-Z]\<close> and \<open>[a-z]\<close> of the regular expression.\<close>

definition is_AZ :: "char \<Rightarrow> bool" where
  "is_AZ c \<longleftrightarrow> 65 \<le> (of_char c :: nat) \<and> (of_char c :: nat) \<le> 90"

definition is_az :: "char \<Rightarrow> bool" where
  "is_az c \<longleftrightarrow> 97 \<le> (of_char c :: nat) \<and> (of_char c :: nat) \<le> 122"

text \<open>
  Upper-case and lower-case code points below 256: the ASCII letters, the Latin-1 capitals
  U+00C0..U+00DE without the multiplication sign, and the Latin-1 small letters with the
  ordinal indicators and the micro sign.
\<close>

definition char_isupper :: "char \<Rightarrow> bool" where
  "char_isupper c \<longleftrightarrow>
     (let n = (of_char c :: nat)
      in (65 \<le> n \<and> n \<le> 90) \<or> (192 \<le> n \<and> n \<le> 222 \<and> n \<noteq> 215))"

definition char_islower :: "char \<Rightarrow> bool" where
  "char_islower c \<longleftrightarrow>
     (let n = (of_char c :: nat)
      in (97 \<le> n \<and> n \<le> 122) \<or> n = 170 \<or> n = 181 \<or> n = 186
         \<or> (223 \<le> n \<and> n \<le> 255 \<and> n \<noteq> 247))"

definition char_lower :: "char \<Rightarrow> char" where
  "char_lower c = (if char_isupper c then char_of ((of_char c :: nat) + 32) else c)"

definition str_lower :: "string \<Rightarrow> string" where
  "str_lower s = map char_lower s"

text \<open>
  \<open>str.isupper()\<close>: no character is lower-case and at least one is upper-case.
\<close>

definition str_isupper :: "string \<Rightarrow> bool" where
  "str_isupper s \<longleftrightarrow> list_all (\<lambda>c. \<not> char_islower c) s \<and> list_ex char_isupper s"

text \<open>
  The pattern \<open>(?<!^)(?=[A-Z][a-z]|(?<=[a-z])[A-Z])\<close> matches the empty text at a position
  that is not the start of the name and where either an \<open>[A-Z]\<close> followed by an \<open>[a-z]\<close>
  begins, or an \<open>[A-Z]\<close> begins right after an \<open>[a-z]\<close>. In \<open>boundary prev c cs\<close> the
  position lies between \<open>prev\<close> and \<open>c\<close>, and \<open>cs\<close> is the text after \<open>c\<close>.
\<close>

definition boundary :: "char \<Rightarrow> char \<Rightarrow> string \<Rightarrow> bool" where
  "boundary prev c cs \<longleftrightarrow>
     (is_AZ c \<and> (case cs of [] \<Rightarrow> False | d # _ \<Rightarrow> is_az d)) \<or> (is_az prev \<and> is_AZ c)"

text \<open>
  \<open>pattern.split(name)\<close>: the name is cut at every position where the pattern matches
  (Python 3.7 and later split at empty matches).
  \<open>split_from prev cur rest\<close> scans \<open>rest\<close>; \<open>cur\<close> holds the current part, last character
  first, and \<open>prev\<close> is the character read last.
\<close>

fun split_from :: "char \<Rightarrow> string \<Rightarrow> string \<Rightarrow> string list" where
  "split_from prev cur [] = [rev cur]"
| "split_from prev cur (c # cs) =
     (if boundary prev c cs then rev cur # split_from c [c] cs
      else split_from c (c # cur) cs)"

definition pattern_split :: "string \<Rightarrow> string list" where
  "pattern_split name = (case name of [] \<Rightarrow> [[]] | c # cs \<Rightarrow> split_from c [c] cs)"

text \<open>\<open>sep.join(parts)\<close>.\<close>

fun str_join :: "string \<Rightarrow> string list \<Rightarrow> string" where
  "str_join sep [] = []"
| "str_join sep [p] = p"
| "str_join sep (p # q # ps) = p @ sep @ str_join sep (q # ps)"

text \<open>
  One element of \<open>processed_parts\<close>:
  \<open>part.lower() if not (part.isupper() and len(part) > 1) else part\<close>.
\<close>

definition process_part :: "string \<Rightarrow> string" where
  "process_part part =
     (if \<not> (str_isupper part \<and> length part > 1) then str_lower part else part)"

definition camel_to_kebab :: "string \<Rightarrow> string" where
  "camel_to_kebab name =
     (if CHR ''-'' \<in> set name then name
      else str_join ''-'' (map process_part (pattern_split name)))"

section \<open>The tree transformer of gen\_repos.py\<close>

subsection \<open>The file system and the platform\<close>

text \<open>
  A directory is the list of its entries in the order in which the operating system lists
  them; a file holds bytes. A path is the list of its components, so that
  \<open>os.path.join(root, name)\<close> is \<open>root @ [name]\<close>.
\<close>

type_synonym bytes = "8 word list"

type_synonym path = "string list"

datatype node = File bytes | Dir "(string \<times> node) list"

type_synonym entries = "(string \<times> node) list"

text \<open>
  What the program takes from outside the repository is a parameter of the model:
  whether the bytes of a file decode in the preferred encoding of the locale (the
  \<open>open(file_path, 'tr')\<close> and \<open>read()\<close> of \<open>is_binary\<close>), reading and writing text as UTF-8,
  and whether \<open>os.rename\<close> silently replaces an existing destination or raises. On Unix
  a file replaces a file and a directory replaces an empty directory; on Windows an
  existing destination always raises.
\<close>

record platform =
  locale_decodes :: "bytes \<Rightarrow> bool"
  utf8_decode :: "bytes \<Rightarrow> string option"
  utf8_encode :: "string \<Rightarrow> bytes"
  replaces :: "node \<Rightarrow> node \<Rightarrow> bool"

datatype os_error = FileNotFoundError | OSError

text \<open>
  The transform outcome of one entry: its path when it was visited, its new path when it
  was renamed, and for a file what happened to its content (the four messages the program
  prints, \<open>Updated\<close> with the bytes before and after).
\<close>

datatype content_outcome = Unchanged | Updated bytes bytes | SkippedNonUtf8 | SkippedBinary

datatype visit = DirVisit path "path option" | FileVisit path "path option" content_outcome

fun visit_path :: "visit \<Rightarrow> path" where
  "visit_path (DirVisit p t) = p"
| "visit_path (FileVisit p t c) = p"

fun visit_target :: "visit \<Rightarrow> path option" where
  "visit_target (DirVisit p t) = t"
| "visit_target (FileVisit p t c) = t"

subsection \<open>os.rename within one directory\<close>

definition rename_key :: "string \<Rightarrow> string \<Rightarrow> entries \<Rightarrow> entries" where
  "rename_key old new es = map (\<lambda>(n, x). if n = old then (new, x) else (n, x)) es"

definition remove_key :: "string \<Rightarrow> entries \<Rightarrow> entries" where
  "remove_key name es = filter (\<lambda>(n, x). n \<noteq> name) es"

definition os_rename :: "platform \<Rightarrow> string \<Rightarrow> string \<Rightarrow> entries \<Rightarrow> os_error + entries" where
  "os_rename pf old new es =
     (case map_of es old of
        None \<Rightarrow> Inl FileNotFoundError
      | Some src \<Rightarrow>
          (case map_of es new of
             None \<Rightarrow> Inr (rename_key old new es)
           | Some dst \<Rightarrow>
               if replaces pf src dst then Inr (rename_key old new (remove_key new es))
               else Inl OSError))"

subsection \<open>is\_binary and the content pass\<close>

text \<open>
  \<open>is_binary\<close> answers \<open>True\<close> on every exception: when the bytes do not decode, and when
  the path is a directory or does not exist.
\<close>

definition is_binary :: "platform \<Rightarrow> node option \<Rightarrow> bool" where
  "is_binary pf f = (case f of Some (File b) \<Rightarrow> \<not> locale_decodes pf b | _ \<Rightarrow> True)"

definition write_file :: "string \<Rightarrow> bytes \<Rightarrow> entries \<Rightarrow> entries" where
  "write_file name b es = map (\<lambda>(n, x). if n = name then (n, File b) else (n, x)) es"

definition process_content :: "platform \<Rightarrow> string \<Rightarrow> entries \<Rightarrow> entries \<times> content_outcome" where
  "process_content pf name es =
     (if \<not> is_binary pf (map_of es name) then
        (case map_of es name of
           Some (File b) \<Rightarrow>
             (case utf8_decode pf b of
                None \<Rightarrow> (es, SkippedNonUtf8)
              | Some content \<Rightarrow>
                  (let new_content = replace_content content
                   in if new_content \<noteq> content
                      then (write_file name (utf8_encode pf new_content) es,
                            Updated b (utf8_encode pf new_content))
                      else (es, Unchanged)))
         | _ \<Rightarrow> (es, SkippedBinary))
      else (es, SkippedBinary))"

subsection \<open>process\_directory\<close>

text \<open>The body of \<open>for dir_name in dirs\<close>.\<close>

definition dir_step :: "platform \<Rightarrow> path \<Rightarrow> string \<Rightarrow> entries \<Rightarrow> os_error + (entries \<times> visit)" where
  "dir_step pf root dir_name es =
     (let old_dir_path = root @ [dir_name];
          new_dir_name = replace_content dir_name;
          new_dir_path = root @ [new_dir_name]
      in if old_dir_path \<noteq> new_dir_path then
           (case os_rename pf dir_name new_dir_name es of
              Inl e \<Rightarrow> Inl e
            | Inr es' \<Rightarrow> Inr (es', DirVisit old_dir_path (Some new_dir_path)))
         else Inr (es, DirVisit old_dir_path None))"

text \<open>The body of \<open>for file_name in files\<close>.\<close>

definition file_step :: "platform \<Rightarrow> path \<Rightarrow> string \<Rightarrow> entries \<Rightarrow> os_error + (entries \<times> visit)" where
  "file_step pf root file_name es =
     (let old_file_path = root @ [file_name];
          new_file_name = replace_content file_name;
          new_file_path = root @ [new_file_name]
      in case (if old_file_path \<noteq> new_file_path
               then os_rename pf file_name new_file_name es else Inr es) of
           Inl e \<Rightarrow> Inl e
         | Inr es1 \<Rightarrow>
             (let (es2, outcome) = process_content pf new_file_name es1
              in Inr (es2, FileVisit old_file_path
                   (if old_file_path \<noteq> new_file_path then Some new_file_path else None)
                   outcome)))"

text \<open>A \<open>for\<close> loop over names; an exception of the body ends it.\<close>

fun for_each :: "(string \<Rightarrow> entries \<Rightarrow> os_error + (entries \<times> visit)) \<Rightarrow> string list \<Rightarrow>
    entries \<Rightarrow> os_error + (entries \<times> visit list)" where
  "for_each step [] es = Inr (es, [])"
| "for_each step (n # ns) es =
     (case step n es of
        Inl e \<Rightarrow> Inl e
      | Inr (es1, v) \<Rightarrow>
          (case for_each step ns es1 of
             Inl e \<Rightarrow> Inl e
           | Inr (es2, vs) \<Rightarrow> Inr (es2, v # vs)))"

fun is_dir :: "node \<Rightarrow> bool" where
  "is_dir (Dir es) = True"
| "is_dir (File b) = False"

definition dir_names :: "entries \<Rightarrow> string list" where
  "dir_names es = map fst (filter (\<lambda>(n, x). is_dir x) es)"

definition file_names :: "entries \<Rightarrow> string list" where
  "file_names es = map fst (filter (\<lambda>(n, x). \<not> is_dir x) es)"

text \<open>
  \<open>os.walk(dir_path, topdown=False)\<close> lists a directory, walks into each of its
  sub-directories in turn, and only then yields the triple \<open>(root, dirs, files)\<close> of the
  directory itself, for which the two loops run. \<open>process_directory pf root t\<close> is the
  run on the tree \<open>t\<close> found at \<open>root\<close>; it returns the tree left there and the outcomes
  in the order of the visits. A path that is no directory yields nothing.
\<close>

fun process_directory :: "platform \<Rightarrow> path \<Rightarrow> node \<Rightarrow> os_error + (node \<times> visit list)"
  and walk_subdirs :: "platform \<Rightarrow> path \<Rightarrow> entries \<Rightarrow> os_error + (entries \<times> visit list)" where
  "process_directory pf root (File b) = Inr (File b, [])"
| "process_directory pf root (Dir es) =
     (case walk_subdirs pf root es of
        Inl e \<Rightarrow> Inl e
      | Inr (es1, vs1) \<Rightarrow>
          (case for_each (dir_step pf root) (dir_names es) es1 of
             Inl e \<Rightarrow> Inl e
           | Inr (es2, vs2) \<Rightarrow>
               (case for_each (file_step pf root) (file_names es) es2 of
                  Inl e \<Rightarrow> Inl e
                | Inr (es3, vs3) \<Rightarrow> Inr (Dir es3, vs1 @ vs2 @ vs3))))"
| "walk_subdirs pf root [] = Inr ([], [])"
| "walk_subdirs pf root ((n, x) # es) =
     (case process_directory pf (root @ [n]) x of
        Inl e \<Rightarrow> Inl e
      | Inr (x', vs1) \<Rightarrow>
          (case walk_subdirs pf root es of
             Inl e \<Rightarrow> Inl e
           | Inr (es', vs2) \<Rightarrow> Inr ((n, x') # es', vs1 @ vs2)))"

subsection \<open>Notions for stating the properties of the traversal\<close>

text \<open>The paths of all entries below \<open>root\<close>.\<close>

fun entry_paths :: "path \<Rightarrow> node \<Rightarrow> path list"
  and entry_paths_list :: "path \<Rightarrow> entries \<Rightarrow> path list" where
  "entry_paths root (File b) = []"
| "entry_paths root (Dir es) = entry_paths_list root es"
| "entry_paths_list root [] = []"
| "entry_paths_list root ((n, x) # es) =
     (root @ [n]) # entry_paths (root @ [n]) x @ entry_paths_list root es"

text \<open>No directory holds two entries of one name.\<close>

fun wf_tree :: "node \<Rightarrow> bool"
  and wf_entries :: "entries \<Rightarrow> bool" where
  "wf_tree (File b) = True"
| "wf_tree (Dir es) = (distinct (map fst es) \<and> wf_entries es)"
| "wf_entries [] = True"
| "wf_entries ((n, x) # es) = (wf_tree x \<and> wf_entries es)"

text \<open>
  The name the entry at a path is expected to get: the substitution pass alone is applied
  to its last component.
\<close>

definition expected_target :: "path \<Rightarrow> path option" where
  "expected_target p =
     (if replace_content (last p) \<noteq> last p
      then Some (butlast p @ [replace_content (last p)]) else None)"

text \<open>
  No rename of a directory's entries meets another entry: the new name of an entry is
  neither the old nor the new name of another entry of the same directory.
\<close>

definition no_clash :: "string list \<Rightarrow> bool" where
  "no_clash names \<longleftrightarrow>
     distinct names \<and>
     (\<forall>n \<in> set names. \<forall>m \<in> set names.
        n \<noteq> m \<longrightarrow> replace_content n \<noteq> m \<and> replace_content n \<noteq> replace_content m)"

fun no_collision :: "node \<Rightarrow> bool"
  and no_collision_entries :: "entries \<Rightarrow> bool" where
  "no_collision (File b) = True"
| "no_collision (Dir es) = (no_clash (map fst es) \<and> no_collision_entries es)"
| "no_collision_entries [] = True"
| "no_collision_entries ((n, x) # es) = (no_collision x \<and> no_collision_entries es)"

text \<open>The tree a run without clashes leaves: every name and every text rewritten.\<close>

definition rewrite_bytes :: "platform \<Rightarrow> bytes \<Rightarrow> bytes" where
  "rewrite_bytes pf b =
     (if locale_decodes pf b then
        (case utf8_decode pf b of
           None \<Rightarrow> b
         | Some content \<Rightarrow>
             if replace_content content \<noteq> content
             then utf8_encode pf (replace_content content) else b)
      else b)"

fun transform :: "platform \<Rightarrow> node \<Rightarrow> node"
  and transform_entries :: "platform \<Rightarrow> entries \<Rightarrow> entries" where
  "transform pf (File b) = File (rewrite_bytes pf b)"
| "transform pf (Dir es) = Dir (transform_entries pf es)"
| "transform_entries pf [] = []"
| "transform_entries pf ((n, x) # es) =
     (replace_content n, transform pf x) # transform_entries pf es"

fun lookup :: "node \<Rightarrow> path \<Rightarrow> node option" where
  "lookup t [] = Some t"
| "lookup (File b) (n # p) = None"
| "lookup (Dir es) (n # p) = (case map_of es n of None \<Rightarrow> None | Some x \<Rightarrow> lookup x p)"

text \<open>
  A platform for evaluating the model on concrete trees: files are text when all their
  bytes are below 128, where UTF-8 and ASCII agree, and \<open>os.rename\<close> replaces as on Unix.
  The program opens the files in text mode: reading turns a carriage return followed by
  a line feed, and a carriage return alone, into a line feed (\<open>universal_newlines\<close>), and
  writing on Unix leaves a line feed as it is.
\<close>

fun universal_newlines :: "string \<Rightarrow> string" where
  "universal_newlines [] = []"
| "universal_newlines [c] = (if c = CHR 0x0D then [CHR 0x0A] else [c])"
| "universal_newlines (c # d # cs) =
     (if c = CHR 0x0D \<and> d = CHR 0x0A then CHR 0x0A # universal_newlines cs
      else if c = CHR 0x0D then CHR 0x0A # universal_newlines (d # cs)
      else c # universal_newlines (d # cs))"

definition ascii_text :: "bytes \<Rightarrow> bool" where
  "ascii_text b = list_all (\<lambda>w. w < 128) b"

definition unix_replaces :: "node \<Rightarrow> node \<Rightarrow> bool" where
  "unix_replaces src dst =
     (case (src, dst) of
        (File a, File b) \<Rightarrow> True
      | (Dir es, Dir []) \<Rightarrow> True
      | _ \<Rightarrow> False)"

definition ascii_unix :: platform where
  "ascii_unix =
     \<lparr> locale_decodes = ascii_text,
       utf8_decode =
         (\<lambda>b. if ascii_text b
              then Some (universal_newlines (map (\<lambda>w. char_of (unat w)) b)) else None),
       utf8_encode = (\<lambda>s. map (\<lambda>c. of_nat (of_char c)) s),
       replaces = unix_replaces \<rparr>"

text \<open>An outcome that rewrote content did so on bytes that decode in the locale.\<close>

definition writes_text :: "platform \<Rightarrow> visit \<Rightarrow> bool" where
  "writes_text pf v =
     (case v of FileVisit p t (Updated old new) \<Rightarrow> locale_decodes pf old | _ \<Rightarrow> True)"

subsection \<open>The order of the visits\<close>

text \<open>
  The paths of the entries in the order in which the walk and the two loops reach them,
  and the property that no path is followed by a path below it.
\<close>

fun visit_order :: "path \<Rightarrow> node \<Rightarrow> path list"
  and visit_order_list :: "path \<Rightarrow> entries \<Rightarrow> path list" where
  "visit_order root (File b) = []"
| "visit_order root (Dir es) =
     visit_order_list root es @ map (\<lambda>n. root @ [n]) (dir_names es)
       @ map (\<lambda>n. root @ [n]) (file_names es)"
| "visit_order_list root [] = []"
| "visit_order_list root ((n, x) # es) = visit_order (root @ [n]) x @ visit_order_list root es"


subsection \<open>The state of a directory during the two loops\<close>

text \<open>
  \<open>done_state pf D es\<close> is the directory \<open>es\<close> after the entries named in \<open>D\<close> have been
  visited without a clash; \<open>mid_state\<close> is the state between the rename and the content
  pass of the entry \<open>n\<close>; \<open>children_done\<close> is a node whose entries have been visited while
  the node itself has not.
\<close>

definition file_effect :: "platform \<Rightarrow> node \<Rightarrow> node" where
  "file_effect pf x = (case x of File b \<Rightarrow> File (rewrite_bytes pf b) | Dir es \<Rightarrow> Dir es)"

definition done_state :: "platform \<Rightarrow> string set \<Rightarrow> entries \<Rightarrow> entries" where
  "done_state pf D es =
     map (\<lambda>(m, x). if m \<in> D then (replace_content m, file_effect pf x) else (m, x)) es"

definition children_done :: "platform \<Rightarrow> node \<Rightarrow> node" where
  "children_done pf x = (case x of File b \<Rightarrow> File b | Dir es \<Rightarrow> transform pf (Dir es))"

definition mid_state :: "platform \<Rightarrow> string set \<Rightarrow> string \<Rightarrow> entries \<Rightarrow> entries" where
  "mid_state pf D n es =
     map (\<lambda>(m, y). if m \<in> D then (replace_content m, file_effect pf y)
                    else if m = n then (replace_content n, y) else (m, y)) es"

text \<open>
  The name of an entry in a directory of which the entries named in \<open>D\<close> have been
  visited.
\<close>

definition cur_key :: "string set \<Rightarrow> string \<Rightarrow> string" where
  "cur_key D m = (if m \<in> D then replace_content m else m)"

subsection \<open>Renames that meet an existing entry\<close>

text \<open>
  \<open>os.rename\<close> onto an existing destination either replaces it or raises. On the platform
  \<open>refusing pf\<close> it always raises, and all else is as on \<open>pf\<close>; so the two loops of a
  directory (\<open>run_loops\<close>, the loops of \<open>process_directory\<close> after the walk into the
  sub-directories) end without an exception on \<open>refusing pf\<close> only when no rename of
  theirs meets an existing entry. \<open>no_replacement_along pf root t p\<close> says this of every
  directory on the way from \<open>t\<close> to the entry at the path \<open>p\<close>: of the directory that holds
  the entry and of every directory above it, each in the state in which the walk has
  left it when its loops start. Other directories of the tree are not constrained.
\<close>

definition refusing :: "platform \<Rightarrow> platform" where
  "refusing pf = pf\<lparr>replaces := (\<lambda>src dst. False)\<rparr>"

definition run_loops ::
  "platform \<Rightarrow> path \<Rightarrow> entries \<Rightarrow> entries \<Rightarrow> os_error + (entries \<times> visit list)" where
  "run_loops pf root es es1 =
     (case for_each (dir_step pf root) (dir_names es) es1 of
        Inl e \<Rightarrow> Inl e
      | Inr (es2, vs2) \<Rightarrow>
          (case for_each (file_step pf root) (file_names es) es2 of
             Inl e \<Rightarrow> Inl e
           | Inr (es3, vs3) \<Rightarrow> Inr (es3, vs2 @ vs3)))"

fun no_replacement_along :: "platform \<Rightarrow> path \<Rightarrow> node \<Rightarrow> path \<Rightarrow> bool" where
  "no_replacement_along pf root t [] = True"
| "no_replacement_along pf root (File b) (n # p) = False"
| "no_replacement_along pf root (Dir es) (n # p) =
     (case walk_subdirs pf root es of
        Inl e \<Rightarrow> False
      | Inr (es1, vs1) \<Rightarrow>
          (case run_loops (refusing pf) root es es1 of Inl e \<Rightarrow> False | Inr r \<Rightarrow> True)
          \<and> (case map_of es n of
               None \<Rightarrow> False
             | Some x \<Rightarrow> no_replacement_along pf (root @ [n]) x p))"

text \<open>
  The name under which an entry is found after the loops over the names \<open>ns\<close>, when it is
  called \<open>k\<close> before them. The step for a listed name \<open>n\<close> whose new name differs renames
  the entry that is called \<open>n\<close> at that moment to \<open>replace_content n\<close>; an entry that is
  called \<open>replace_content n\<close> at that moment is replaced and lost (\<open>None\<close>). \<open>final_path t p\<close>
  follows the entry at \<open>p\<close> through the loops of its directory and of every directory
  above it, in the order of the walk: the deepest directory first.
\<close>

fun track :: "string list \<Rightarrow> string \<Rightarrow> string option" where
  "track [] k = Some k"
| "track (n # ns) k =
     (if replace_content n = n then track ns k
      else if k = n then track ns (replace_content n)
      else if k = replace_content n then None
      else track ns k)"

fun final_path :: "node \<Rightarrow> path \<Rightarrow> path option" where
  "final_path t [] = Some []"
| "final_path (File b) (n # p) = None"
| "final_path (Dir es) (n # p) =
     (case map_of es n of
        None \<Rightarrow> None
      | Some x \<Rightarrow>
          (case final_path x p of
             None \<Rightarrow> None
           | Some q \<Rightarrow>
               (case track (dir_names es @ file_names es) n of
                  None \<Rightarrow> None
                | Some k \<Rightarrow> Some (k # q))))"

section \<open>The publish pipeline of gen\_repos.py\<close>

text \<open>
  \<open>process_repo\<close> talks to the remote host and to git. The answers of these collaborators
  are the fields of \<open>remote_env\<close>: whether \<open>get_repo\<close> finds the target repository or raises
  \<open>GithubException\<close>, whether \<open>delete\<close> and \<open>create_repo\<close> raise it, whether the local path
  exists, the tree that \<open>clone_from\<close> leaves there, whether the remote \<open>origin\<close> is found
  (else \<open>ValueError\<close>), the name of the active branch (\<open>None\<close> for the \<open>TypeError\<close>), for
  each attempt whether \<open>push\<close> raises \<open>GitCommandError\<close>, and whether the lookup before the
  collaborator grant raises. The calls that change something are recorded as actions, in
  the order in which the program makes them. Exceptions that the program does not catch,
  other than those of \<open>process_directory\<close>, are not modelled.
\<close>

record repository =
  repo_name :: string
  clone_url :: string

record remote_env =
  target_found :: bool
  delete_raises :: bool
  create_raises :: bool
  local_path_exists :: bool
  cloned :: node
  origin_found :: bool
  active_branch :: "string option"
  push_raises :: "nat \<Rightarrow> bool"
  grant_lookup_raises :: bool

datatype action =
    DeleteRepo string
  | Sleep nat
  | CreateRepo string
  | RmTree path
  | CloneFrom string path
  | InitRepo path
  | AddAll
  | Commit string node
  | SetUrl string
  | CreateRemote string string
  | CheckoutNew string
  | Push string
  | AddCollaborator string string string

datatype outcome = Skipped | CreateFailed | Raised os_error | PushFailed | Processed

definition git_dir_exists :: "node \<Rightarrow> bool" where
  "git_dir_exists t = (case t of Dir es \<Rightarrow> map_of es ''.git'' \<noteq> None | File b \<Rightarrow> False)"

definition strip_git :: "node \<Rightarrow> node" where
  "strip_git t = (case t of Dir es \<Rightarrow> Dir (remove_key ''.git'' es) | File b \<Rightarrow> File b)"

text \<open>
  The loop \<open>for attempt in range(3)\<close>: a push that does not raise ends the loop
  (\<open>break\<close>), a push that raises at attempt 2 ends \<open>process_repo\<close> (\<open>return\<close>, the result
  \<open>False\<close>), and a push that raises earlier is followed by \<open>time.sleep(5)\<close>.
\<close>

fun push_loop :: "(nat \<Rightarrow> bool) \<Rightarrow> string \<Rightarrow> nat list \<Rightarrow> bool \<times> action list" where
  "push_loop raises branch [] = (True, [])"
| "push_loop raises branch (attempt # rest) =
     (if \<not> raises attempt then (True, [Push branch])
      else if attempt = 2 then (False, [Push branch])
      else (let (pushed, acts) = push_loop raises branch rest
            in (pushed, [Push branch, Sleep 5] @ acts)))"

definition grant_collaborator :: "remote_env \<Rightarrow> string \<Rightarrow> action list" where
  "grant_collaborator env new_repo_name =
     (if grant_lookup_raises env then []
      else [AddCollaborator new_repo_name ''chenxingqiang'' ''admin''])"

definition process_repo ::
  "platform \<Rightarrow> remote_env \<Rightarrow> repository \<Rightarrow> string \<Rightarrow> string \<Rightarrow> path \<Rightarrow> bool \<Rightarrow>
     outcome \<times> action list" where
  "process_repo pf env repo github_token target_org_name local_dir reprocess =
     (let new_repo_name = camel_to_kebab (replace_content (repo_name repo));
          local_repo_path = local_dir @ [new_repo_name]
      in if target_found env \<and> \<not> reprocess then (Skipped, [])
         else
          (let deletion =
                 (if target_found env
                  then (if delete_raises env then [DeleteRepo new_repo_name]
                        else [DeleteRepo new_repo_name, Sleep 5])
                  else [])
           in if create_raises env then (CreateFailed, deletion @ [CreateRepo new_repo_name])
              else
               (let fetched =
                      deletion @ [CreateRepo new_repo_name, Sleep 5]
                        @ (if local_path_exists env then [RmTree local_repo_path] else [])
                        @ [CloneFrom (clone_url repo) local_repo_path]
                        @ (if git_dir_exists (cloned env)
                           then [RmTree (local_repo_path @ [''.git''])] else [])
                in case process_directory pf local_repo_path (strip_git (cloned env)) of
                     Inl e \<Rightarrow> (Raised e, fetched)
                   | Inr (tree, visits) \<Rightarrow>
                       (let new_remote_url =
                              ''https://'' @ github_token @ ''@github.com/'' @ target_org_name
                                @ ''/'' @ new_repo_name @ ''.git'';
                            current_branch =
                              (case active_branch env of Some b \<Rightarrow> b | None \<Rightarrow> ''main'');
                            committed =
                              fetched
                                @ [InitRepo local_repo_path, AddAll,
                                   Commit ''Update content and rename'' tree]
                                @ (if origin_found env then [SetUrl new_remote_url]
                                   else [CreateRemote ''origin'' new_remote_url])
                                @ (case active_branch env of
                                     Some b \<Rightarrow> [] | None \<Rightarrow> [CheckoutNew ''main'']);
                            (pushed, pushes) = push_loop (push_raises env) current_branch [0..<3]
                        in if \<not> pushed then (PushFailed, committed @ pushes)
                           else (Processed,
                                 committed @ pushes @ grant_collaborator env new_repo_name)))))"

section \<open>process\_repo of re\_in\_repos.py\<close>

text \<open>
  The second tool asks whether the local path exists and whether the repository there is
  dirty; it clones, runs two shell commands, commits and pushes. \<open>run_command\<close> prints the
  error of a failed command and does not raise. Its \<open>process_repo\<close> is \<open>re_process_repo\<close>
  here, the name \<open>process_repo\<close> being that of gen\_repos.py.
\<close>

datatype re_action =
  Clone string string | RunCommand string | GitAddAll | GitCommit string | OriginPush

text \<open>
  The calls of GitPython (\<open>clone_from\<close>, \<open>git.add\<close>, \<open>index.commit\<close>, \<open>push\<close>) can raise; the
  field \<open>git_raises\<close> says of each call whether it does. The exception is not caught in
  \<open>process_repo\<close>, so the call that raises is the last one made.
\<close>

record local_env =
  local_found :: bool
  repo_dirty :: bool
  git_raises :: "re_action \<Rightarrow> bool"

datatype re_outcome = SkippedDirty | GitRaised | Pushed

definition is_repo_clean :: "local_env \<Rightarrow> bool" where
  "is_repo_clean env = (\<not> repo_dirty env)"

definition rename_and_replace :: "string \<Rightarrow> string \<Rightarrow> string \<Rightarrow> re_action list" where
  "rename_and_replace repo_path old_str new_str =
     (let q = [CHR 0x27];
          rename_cmd =
            ''find '' @ repo_path @ '' -depth -name '' @ q @ ''*'' @ old_str @ ''*'' @ q
              @ '' -execdir rename '' @ q @ ''s/'' @ old_str @ ''/'' @ new_str @ ''/g'' @ q
              @ '' '' @ q @ ''{}'' @ q @ '' +'';
          replace_cmd =
            ''grep -rl '' @ q @ old_str @ q @ '' '' @ repo_path @ '' | xargs sed -i '' @ q
              @ ''s/'' @ old_str @ ''/'' @ new_str @ ''/g'' @ q
      in [RunCommand rename_cmd, RunCommand replace_cmd])"

definition may_raise :: "local_env \<Rightarrow> re_action \<Rightarrow> bool" where
  "may_raise env a = (case a of RunCommand c \<Rightarrow> False | _ \<Rightarrow> git_raises env a)"

fun run_until_raise :: "(re_action \<Rightarrow> bool) \<Rightarrow> re_action list \<Rightarrow> bool \<times> re_action list" where
  "run_until_raise raises [] = (True, [])"
| "run_until_raise raises (a # rest) =
     (if raises a then (False, [a])
      else (let (finished, made) = run_until_raise raises rest in (finished, a # made)))"

definition re_process_repo ::
  "local_env \<Rightarrow> string \<Rightarrow> string \<Rightarrow> string \<Rightarrow> string \<Rightarrow> re_outcome \<times> re_action list" where
  "re_process_repo env name old_str new_str org_name =
     (let local_path = ''./'' @ name;
          q = [CHR 0x27]
      in if local_found env \<and> \<not> is_repo_clean env then (SkippedDirty, [])
         else
          (let (finished, made) =
                 run_until_raise (may_raise env)
                   ((if local_found env then []
                     else [Clone (''https://github.com/'' @ org_name @ ''/'' @ name @ ''.git'')
                             local_path])
                    @ rename_and_replace local_path old_str new_str
                    @ [GitAddAll,
                       GitCommit (''Replace '' @ q @ old_str @ q @ '' with '' @ q @ new_str @ q),
                       OriginPush])
           in (if finished then Pushed else GitRaised, made)))"

section \<open>Concrete inputs\<close>

text \<open>
  The entries of a small working tree: a directory \<open>biotools\<close> with a text file and a
  file that does not decode, beside a file whose name no rule matches.
\<close>

definition sample_text :: bytes where
  "sample_text = map (\<lambda>c. of_nat (of_char c)) ''use tools''"

definition sample_entries :: entries where
  "sample_entries =
     [(''biotools'',
       Dir [(''Tool.txt'', File sample_text), (''logo.png'', File [0x89, 0x50])]),
      (''FooBar'', File [])]"

text \<open>The tree and the outcomes that the run on this tree at \<open>repo\<close> yields.\<close>

definition sample_result :: node where
  "sample_result =
     Dir [(''bioagents'',
           Dir [(''Agent.txt'', File (map (\<lambda>c. of_nat (of_char c)) ''use agents'')),
                (''logo.png'', File [0x89, 0x50])]),
          (''FooBar'', File [])]"

definition sample_log :: "visit list" where
  "sample_log =
     [FileVisit [''repo'', ''biotools'', ''Tool.txt'']
        (Some [''repo'', ''biotools'', ''Agent.txt''])
        (Updated sample_text (map (\<lambda>c. of_nat (of_char c)) ''use agents'')),
      FileVisit [''repo'', ''biotools'', ''logo.png''] None SkippedBinary,
      DirVisit [''repo'', ''biotools''] (Some [''repo'', ''bioagents'']),
      FileVisit [''repo'', ''FooBar''] None Unchanged]"

text \<open>
  Two directories side by side, each with files that do not decode: in \<open>B\<close> the rename of
  \<open>tools.bin\<close> meets the file \<open>agents.bin\<close> and replaces it, in \<open>A\<close> no rename meets an
  entry. Below, the tree and the outcomes that the run on this tree at \<open>repo\<close> yields.
\<close>

definition sibling_entries :: entries where
  "sibling_entries =
     [(''A'', Dir [(''tools.bin'', File [0xFE])]),
      (''B'', Dir [(''agents.bin'', File [0xFD]), (''tools.bin'', File [0xFF])])]"

definition sibling_result :: node where
  "sibling_result =
     Dir [(''A'', Dir [(''agents.bin'', File [0xFE])]),
          (''B'', Dir [(''agents.bin'', File [0xFF])])]"

definition sibling_log :: "visit list" where
  "sibling_log =
     [FileVisit [''repo'', ''A'', ''tools.bin''] (Some [''repo'', ''A'', ''agents.bin''])
        SkippedBinary,
      FileVisit [''repo'', ''B'', ''agents.bin''] None SkippedBinary,
      FileVisit [''repo'', ''B'', ''tools.bin''] (Some [''repo'', ''B'', ''agents.bin''])
        SkippedBinary,
      DirVisit [''repo'', ''A''] None,
      DirVisit [''repo'', ''B''] None]"

text \<open>
  The answers of the collaborators for a repository \<open>BioTools\<close> that is not yet at the
  target: the first two pushes raise; in \<open>failing_env\<close> every push raises.
\<close>

definition sample_env :: remote_env where
  "sample_env =
     \<lparr> target_found = False, delete_raises = False, create_raises = False,
       local_path_exists = False,
       cloned = Dir [(''.git'', Dir []), (''BioTools.md'', File [])],
       origin_found = False, active_branch = None,
       push_raises = (\<lambda>i. i < 2), grant_lookup_raises = False \<rparr>"

definition failing_env :: remote_env where
  "failing_env = sample_env\<lparr>push_raises := (\<lambda>i. True)\<rparr>"

definition sample_repo :: repository where
  "sample_repo = \<lparr> repo_name = ''BioTools'', clone_url = ''https://github.com/bio-tools/BioTools.git'' \<rparr>"

section \<open>Facts about the substitution pass\<close>

lemma re_sub_no_match: "\<not> sublist old s \<Longrightarrow> re_sub old new s = s"
proof (induction s)
  case Nil
  then show ?case by simp
next
  case (Cons c cs)
  have "\<not> prefix old (c # cs)"
    using Cons.prems by (auto simp: sublist_Cons_right)
  moreover have "\<not> sublist old cs"
    using Cons.prems by (auto simp: sublist_Cons_right)
  ultimately show ?case using Cons.IH by simp
qed

lemma re_sub_prefix_kept:
  assumes "new \<noteq> []" "hd new \<notin> set q" "prefix q (re_sub old new s)"
  shows "prefix q s \<and> (q \<noteq> [] \<longrightarrow> \<not> (old \<noteq> [] \<and> prefix old s))"
  using assms
proof (induction q arbitrary: s)
  case Nil
  then show ?case by simp
next
  case (Cons a q)
  show ?case
  proof (cases s)
    case Nil
    with Cons.prems show ?thesis by simp
  next
    case (Cons c cs)
    show ?thesis
    proof (cases "old \<noteq> [] \<and> prefix old (c # cs)")
      case True
      then have "re_sub old new s = new @ re_sub old new (drop (length old) (c # cs))"
        using Cons by simp
      with \<open>prefix (a # q) (re_sub old new s)\<close> \<open>new \<noteq> []\<close>
      have "a = hd new" by (cases new) auto
      with \<open>hd new \<notin> set (a # q)\<close> show ?thesis by simp
    next
      case False
      then have eq: "re_sub old new s = c # re_sub old new cs"
        using Cons by auto
      with \<open>prefix (a # q) (re_sub old new s)\<close>
      have ac: "a = c" and pq: "prefix q (re_sub old new cs)" by auto
      have "hd new \<notin> set q" using \<open>hd new \<notin> set (a # q)\<close> by simp
      from Cons.IH[OF \<open>new \<noteq> []\<close> this pq] have "prefix q cs" by simp
      with ac False Cons show ?thesis by simp
    qed
  qed
qed

lemma sublist_skip_foreign:
  assumes "q \<noteq> []" "hd q \<notin> set r" "sublist q (r @ x)"
  shows "sublist q x"
  using assms
proof (induction r)
  case Nil
  then show ?case by simp
next
  case (Cons a r)
  from Cons.prems have "\<not> prefix q (a # r @ x)"
    by (cases q) auto
  with Cons.prems have "sublist q (r @ x)"
    by (simp add: sublist_Cons_right)
  with Cons show ?case by simp
qed

lemma re_sub_step_absent:
  assumes q: "q \<noteq> []" and hq: "hd q \<notin> set new"
    and rest: "old \<noteq> [] \<Longrightarrow> \<not> sublist q (re_sub old new (drop (length old) (c # cs)))"
      "\<not> sublist q (re_sub old new cs)"
    and here: "\<not> (hd q = c \<and> prefix (tl q) (re_sub old new cs))"
  shows "\<not> sublist q (re_sub old new (c # cs))"
proof (cases "old \<noteq> [] \<and> prefix old (c # cs)")
  case True
  then have "re_sub old new (c # cs) = new @ re_sub old new (drop (length old) (c # cs))"
    by simp
  moreover from True rest(1)
  have "\<not> sublist q (re_sub old new (drop (length old) (c # cs)))" by simp
  ultimately show ?thesis using sublist_skip_foreign[OF q hq] by metis
next
  case False
  then have eq: "re_sub old new (c # cs) = c # re_sub old new cs" by auto
  show ?thesis
  proof
    assume "sublist q (re_sub old new (c # cs))"
    with eq rest(2) have p: "prefix q (c # re_sub old new cs)"
      by (simp add: sublist_Cons_right)
    with q have "hd q = c \<and> prefix (tl q) (re_sub old new cs)"
      by (cases q) simp_all
    with here show False by simp
  qed
qed

lemma re_sub_preserves_absent:
  assumes new: "new \<noteq> []" and q: "q \<noteq> []" and hq: "hd q \<notin> set new"
    and hn: "hd new \<notin> set (tl q)" and absent: "\<not> sublist q s"
  shows "\<not> sublist q (re_sub old new s)"
  using absent
proof (induction s rule: length_induct)
  case (1 s)
  show ?case
  proof (cases s)
    case Nil
    with q show ?thesis by simp
  next
    case (Cons c cs)
    have "sublist (drop (length old) (c # cs)) (c # cs)"
      by (rule sublist_drop)
    with "1.prems" Cons have a: "\<not> sublist q (drop (length old) (c # cs))"
      using sublist_order.order_trans by blast
    have b: "\<not> sublist q cs"
      using "1.prems" Cons by (auto simp: sublist_Cons_right)
    have "length (drop (length old) (c # cs)) < length s \<or> old = []"
      using Cons by auto
    then have r1: "old \<noteq> [] \<Longrightarrow> \<not> sublist q (re_sub old new (drop (length old) (c # cs)))"
      using "1.IH" a by blast
    have r2: "\<not> sublist q (re_sub old new cs)"
      using "1.IH" b Cons by simp
    have here: "\<not> (hd q = c \<and> prefix (tl q) (re_sub old new cs))"
    proof
      assume h: "hd q = c \<and> prefix (tl q) (re_sub old new cs)"
      with re_sub_prefix_kept[OF new hn] have "prefix (tl q) cs" by blast
      with h q have "prefix q (c # cs)" by (cases q) auto
      with "1.prems" Cons show False by (auto simp: sublist_Cons_right)
    qed
    from re_sub_step_absent[OF q hq r1 r2 here] Cons show ?thesis by simp
  qed
qed

lemma re_sub_removes:
  assumes new: "new \<noteq> []" and q: "q \<noteq> []" and hq: "hd q \<notin> set new"
    and hn: "hd new \<notin> set (tl q)" and old: "old \<noteq> []" and pre: "prefix old (tl q)"
  shows "\<not> sublist q (re_sub old new s)"
proof (induction s rule: length_induct)
  case (1 s)
  show ?case
  proof (cases s)
    case Nil
    with q show ?thesis by simp
  next
    case (Cons c cs)
    have "length (drop (length old) (c # cs)) < length s" and "length cs < length s"
      using Cons old by auto
    with "1.IH" have r: "\<not> sublist q (re_sub old new (drop (length old) (c # cs)))"
      "\<not> sublist q (re_sub old new cs)" by blast+
    have here: "\<not> (hd q = c \<and> prefix (tl q) (re_sub old new cs))"
    proof
      assume h: "hd q = c \<and> prefix (tl q) (re_sub old new cs)"
      from pre old have "tl q \<noteq> []" by auto
      with h re_sub_prefix_kept[OF new hn, of old cs]
      have "prefix (tl q) cs" and "\<not> prefix old cs" using old by blast+
      with pre show False using prefix_order.order_trans by blast
    qed
    from re_sub_step_absent[OF q hq r here] Cons show ?thesis by simp
  qed
qed

lemma dot_tools_absent: "\<not> sublist ''.tools'' (apply_rules (butlast replacements) s)"
proof -
  have 1: "\<not> sublist ''.tools'' (re_sub ''tools'' ''agents'' s)"
    by (rule re_sub_removes) simp_all
  note P = re_sub_preserves_absent[where q = "''.tools''"]
  have 2: "\<not> sublist ''.tools'' (re_sub ''Tools'' ''Agents'' (re_sub ''tools'' ''agents'' s))"
    by (rule P[OF _ _ _ _ 1]) simp_all
  have 3: "\<not> sublist ''.tools'' (re_sub ''tool'' ''agent'' (re_sub ''Tools'' ''Agents'' (re_sub ''tools'' ''agents'' s)))"
    by (rule P[OF _ _ _ _ 2]) simp_all
  show ?thesis
    unfolding replacements_def
    apply (simp del: re_sub.simps)
    apply (intro P 1; simp)
    done
qed

lemma apply_rules_snoc:
  "apply_rules (rs @ [(old, new)]) content = re_sub old new (apply_rules rs content)"
  by (induction rs content rule: apply_rules.induct) simp_all

section \<open>Facts about the name conversion\<close>

lemma concat_split_from: "concat (split_from prev cur rest) = rev cur @ rest"
  by (induction prev cur rest rule: split_from.induct) auto

lemma split_from_not_Nil: "split_from prev cur rest \<noteq> []"
  by (induction prev cur rest rule: split_from.induct) auto

lemma concat_pattern_split: "concat (pattern_split name) = name"
  by (cases name) (simp_all add: pattern_split_def concat_split_from)

lemma pattern_split_not_Nil: "pattern_split name \<noteq> []"
  by (cases name) (simp_all add: pattern_split_def split_from_not_Nil)

lemma pattern_split_cases:
  "pattern_split name = [name] \<or> 2 \<le> length (pattern_split name)"
proof (cases "pattern_split name")
  case Nil
  then show ?thesis using pattern_split_not_Nil by blast
next
  case (Cons p ps)
  show ?thesis
  proof (cases ps)
    case Nil
    with Cons concat_pattern_split[of name] show ?thesis by simp
  next
    case (Cons q qs)
    with \<open>pattern_split name = p # ps\<close> show ?thesis by simp
  qed
qed

lemma split_from_no_capital:
  "\<forall>c \<in> set rest. \<not> is_AZ c \<Longrightarrow> split_from prev cur rest = [rev cur @ rest]"
  by (induction prev cur rest rule: split_from.induct) (auto simp: boundary_def)

lemma pattern_split_no_capital:
  "\<forall>c \<in> set name. \<not> is_AZ c \<Longrightarrow> pattern_split name = [name]"
  by (cases name) (simp_all add: pattern_split_def split_from_no_capital)

lemma str_join_has_sep:
  "2 \<le> length ps \<Longrightarrow> set sep \<subseteq> set (str_join sep ps)"
  by (induction sep ps rule: str_join.induct) auto

lemma char_lower_not_upper: "\<not> char_isupper (char_lower c)"
  by (auto simp: char_lower_def char_isupper_def Let_def)

lemma char_lower_idem: "char_lower (char_lower c) = char_lower c"
  using char_lower_not_upper[of c] by (simp add: char_lower_def[of "char_lower c"])

lemma str_lower_idem: "str_lower (str_lower s) = str_lower s"
  by (simp add: str_lower_def char_lower_idem)

lemma is_AZ_upper: "is_AZ c \<Longrightarrow> char_isupper c"
  by (simp add: is_AZ_def char_isupper_def)

lemma str_lower_no_capital: "\<forall>c \<in> set (str_lower s). \<not> is_AZ c"
  using char_lower_not_upper is_AZ_upper by (auto simp: str_lower_def)

lemma char_lower_dash: "char_lower c = CHR ''-'' \<Longrightarrow> c = CHR ''-''"
proof -
  assume a: "char_lower c = CHR ''-''"
  show ?thesis
  proof (cases "char_isupper c")
    case True
    with a have "char_of ((of_char c :: nat) + 32) = CHR ''-''" by (simp add: char_lower_def)
    then have "(of_char (char_of ((of_char c :: nat) + 32) :: char) :: nat) = of_char (CHR ''-'')"
      by simp
    then have "((of_char c :: nat) + 32) mod 256 = 45" by simp
    with True show ?thesis by (auto simp: char_isupper_def Let_def)
  next
    case False
    with a show ?thesis by (simp add: char_lower_def)
  qed
qed

lemma str_lower_dash: "CHR ''-'' \<in> set (str_lower s) \<Longrightarrow> CHR ''-'' \<in> set s"
proof -
  assume "CHR ''-'' \<in> set (str_lower s)"
  then obtain c where c: "c \<in> set s" and "char_lower c = CHR ''-''"
    by (auto simp: str_lower_def)
  then have "c = CHR ''-''" by (simp add: char_lower_dash)
  with c show ?thesis by simp
qed

section \<open>Facts about the order of the visits\<close>

lemma expected_target_snoc:
  "expected_target (root @ [n]) =
     (if replace_content n \<noteq> n then Some (root @ [replace_content n]) else None)"
  by (simp add: expected_target_def)

lemma dir_step_visit:
  "dir_step pf root n es = Inr (es', v) \<Longrightarrow>
     visit_path v = root @ [n] \<and> visit_target v = expected_target (root @ [n])"
  by (auto simp: dir_step_def Let_def expected_target_snoc split: if_splits sum.splits)

lemma file_step_visit:
  "file_step pf root n es = Inr (es', v) \<Longrightarrow>
     visit_path v = root @ [n] \<and> visit_target v = expected_target (root @ [n])"
  by (auto simp: file_step_def Let_def expected_target_snoc split: if_splits sum.splits prod.splits)

lemma for_each_visits:
  assumes "\<And>n es es' v. step n es = Inr (es', v) \<Longrightarrow>
     visit_path v = root @ [n] \<and> visit_target v = expected_target (root @ [n])"
  shows "for_each step ns es = Inr (es', vs) \<Longrightarrow>
     map visit_path vs = map (\<lambda>n. root @ [n]) ns \<and>
     (\<forall>v \<in> set vs. visit_target v = expected_target (visit_path v))"
proof (induction ns arbitrary: es es' vs)
  case Nil
  then show ?case by simp
next
  case (Cons n ns)
  from Cons.prems obtain es1 v vs' where
    s: "step n es = Inr (es1, v)" and r: "for_each step ns es1 = Inr (es', vs')" and
    vs: "vs = v # vs'"
    by (auto split: sum.splits prod.splits)
  from assms[OF s] Cons.IH[OF r] vs show ?case by simp
qed

lemma for_each_dir_visits:
  "for_each (dir_step pf root) ns es = Inr (es', vs) \<Longrightarrow>
     map visit_path vs = map (\<lambda>n. root @ [n]) ns \<and>
     (\<forall>v \<in> set vs. visit_target v = expected_target (visit_path v))"
  by (erule for_each_visits[rotated]) (rule dir_step_visit)

lemma for_each_file_visits:
  "for_each (file_step pf root) ns es = Inr (es', vs) \<Longrightarrow>
     map visit_path vs = map (\<lambda>n. root @ [n]) ns \<and>
     (\<forall>v \<in> set vs. visit_target v = expected_target (visit_path v))"
  by (erule for_each_visits[rotated]) (rule file_step_visit)

lemma log_follows_order:
  "\<forall>t' L. process_directory pf root t = Inr (t', L) \<longrightarrow>
      map visit_path L = visit_order root t \<and>
      (\<forall>v \<in> set L. visit_target v = expected_target (visit_path v))"
  and log_follows_order_list:
  "\<forall>es' L. walk_subdirs pf root es = Inr (es', L) \<longrightarrow>
      map visit_path L = visit_order_list root es \<and>
      (\<forall>v \<in> set L. visit_target v = expected_target (visit_path v))"
proof (induction pf root t and pf root es rule: process_directory_walk_subdirs.induct)
  case (1 pf root b)
  then show ?case by simp
next
  case (2 pf root es)
  show ?case
  proof (intro allI impI)
    fix t' L
    assume run: "process_directory pf root (Dir es) = Inr (t', L)"
    then obtain es1 vs1 es2 vs2 es3 vs3 where
      a: "walk_subdirs pf root es = Inr (es1, vs1)" and
      b: "for_each (dir_step pf root) (dir_names es) es1 = Inr (es2, vs2)" and
      c: "for_each (file_step pf root) (file_names es) es2 = Inr (es3, vs3)" and
      L: "L = vs1 @ vs2 @ vs3"
      by (auto split: sum.splits prod.splits)
    from "2.IH" a have 1: "map visit_path vs1 = visit_order_list root es"
      "\<forall>v \<in> set vs1. visit_target v = expected_target (visit_path v)" by blast+
    from for_each_dir_visits[OF b]
    have 2: "map visit_path vs2 = map (\<lambda>n. root @ [n]) (dir_names es)"
      "\<forall>v \<in> set vs2. visit_target v = expected_target (visit_path v)" by blast+
    from for_each_file_visits[OF c]
    have 3: "map visit_path vs3 = map (\<lambda>n. root @ [n]) (file_names es)"
      "\<forall>v \<in> set vs3. visit_target v = expected_target (visit_path v)" by blast+
    from 1 2 3 L show "map visit_path L = visit_order root (Dir es) \<and>
      (\<forall>v \<in> set L. visit_target v = expected_target (visit_path v))" by auto
  qed
next
  case (3 pf root)
  then show ?case by simp
next
  case (4 pf root n x es)
  show ?case
  proof (intro allI impI)
    fix es' L
    assume run: "walk_subdirs pf root ((n, x) # es) = Inr (es', L)"
    then obtain x' vs1 es1 vs2 where
      a: "process_directory pf (root @ [n]) x = Inr (x', vs1)" and
      b: "walk_subdirs pf root es = Inr (es1, vs2)" and L: "L = vs1 @ vs2"
      by (auto split: sum.splits prod.splits)
    from "4.IH"(1) a have 1: "map visit_path vs1 = visit_order (root @ [n]) x"
      "\<forall>v \<in> set vs1. visit_target v = expected_target (visit_path v)" by blast+
    from "4.IH"(2)[OF a refl] b have 2: "map visit_path vs2 = visit_order_list root es"
      "\<forall>v \<in> set vs2. visit_target v = expected_target (visit_path v)" by blast+
    from 1 2 L show "map visit_path L = visit_order_list root ((n, x) # es) \<and>
      (\<forall>v \<in> set L. visit_target v = expected_target (visit_path v))" by auto
  qed
qed

lemma names_union: "set (dir_names es) \<union> set (file_names es) = fst ` set es"
  by (auto simp: dir_names_def file_names_def image_iff)

lemma names_distinct:
  "distinct (map fst es) \<Longrightarrow>
     distinct (dir_names es) \<and> distinct (file_names es) \<and>
     set (dir_names es) \<inter> set (file_names es) = {}"
  unfolding dir_names_def file_names_def
  by (induction es) (auto simp: image_iff)


lemma visit_order_covers:
  "set (visit_order root t) = set (entry_paths root t)"
  and visit_order_list_covers:
  "set (visit_order_list root es) \<union> (\<lambda>n. root @ [n]) ` fst ` set es =
     set (entry_paths_list root es)"
proof (induction root t and root es rule: visit_order_visit_order_list.induct)
  case (2 root es)
  have "set (visit_order root (Dir es)) =
      set (visit_order_list root es) \<union> (\<lambda>n. root @ [n]) ` (set (dir_names es) \<union> set (file_names es))"
    by auto
  with 2 show ?case by (simp add: names_union)
qed auto






section \<open>Runs without clashes\<close>

lemma map_of_unique:
  assumes "k \<in> fst ` set l" "\<forall>(k', y) \<in> set l. k' = k \<longrightarrow> y = x"
  shows "map_of l k = Some x"
proof -
  from assms(1) obtain y where "map_of l k = Some y"
    by (metis map_of_eq_None_iff not_Some_eq)
  moreover from this have "(k, y) \<in> set l" by (rule map_of_SomeD)
  ultimately show ?thesis using assms(2) by auto
qed

lemma no_clashD:
  assumes "no_clash ns" "n \<in> set ns" "m \<in> set ns" "n \<noteq> m"
  shows "replace_content n \<noteq> m" "replace_content n \<noteq> replace_content m"
  using assms unfolding no_clash_def by blast+

lemma process_content_effect:
  assumes "map_of es k = Some x" "\<forall>(k', y) \<in> set es. k' = k \<longrightarrow> y = x"
  shows "fst (process_content pf k es) =
           map (\<lambda>(k', y). if k' = k then (k', file_effect pf y) else (k', y)) es"
proof -
  have same: "es = map (\<lambda>(k', y). if k' = k then (k', file_effect pf y) else (k', y)) es"
    if "file_effect pf x = x"
  proof -
    have "map (\<lambda>(k', y). if k' = k then (k', file_effect pf y) else (k', y)) es = map id es"
      by (rule map_cong) (use assms(2) that in auto)
    then show ?thesis by simp
  qed
  have wr: "write_file k b' es = map (\<lambda>(k', y). if k' = k then (k', file_effect pf y) else (k', y)) es"
    if "file_effect pf x = File b'" for b'
    unfolding write_file_def
    by (rule map_cong) (use assms(2) that in auto)
  show ?thesis
  proof (cases x)
    case (Dir ds)
    then have "file_effect pf x = x" by (simp add: file_effect_def)
    from same[OF this] show ?thesis
      using assms(1) Dir by (simp add: process_content_def is_binary_def)
  next
    case (File b)
    show ?thesis
    proof (cases "locale_decodes pf b")
      case False
      then have "file_effect pf x = x" using File by (simp add: file_effect_def rewrite_bytes_def)
      from same[OF this] show ?thesis
        using assms(1) File False by (simp add: process_content_def is_binary_def)
    next
      case True
      show ?thesis
      proof (cases "utf8_decode pf b")
        case None
        then have "file_effect pf x = x"
          using File True by (simp add: file_effect_def rewrite_bytes_def)
        from same[OF this] show ?thesis
          using assms(1) File True None by (simp add: process_content_def is_binary_def)
      next
        case (Some content)
        show ?thesis
        proof (cases "replace_content content = content")
          case eq: True
          then have "file_effect pf x = x"
            using File True Some by (simp add: file_effect_def rewrite_bytes_def)
          from same[OF this] show ?thesis
            using assms(1) File True Some eq
            by (simp add: process_content_def is_binary_def)
        next
          case neq: False
          then have "file_effect pf x = File (utf8_encode pf (replace_content content))"
            using File True Some by (simp add: file_effect_def rewrite_bytes_def)
          from wr[OF this] show ?thesis
            using assms(1) File True Some neq
            by (simp add: process_content_def is_binary_def Let_def)
        qed
      qed
    qed
  qed
qed

lemma entry_unique:
  "distinct (map fst es) \<Longrightarrow> (n, x) \<in> set es \<Longrightarrow> (n, y) \<in> set es \<Longrightarrow> y = x"
  by (meson eq_key_imp_eq_value)

lemma done_state_source:
  assumes nc: "no_clash (map fst es)" and n: "(n, x) \<in> set es" and nD: "n \<notin> D"
  shows "map_of (done_state pf D es) n = Some x"
proof (rule map_of_unique)
  from n nD show "n \<in> fst ` set (done_state pf D es)"
    by (force simp: done_state_def image_iff)
  show "\<forall>(k', y) \<in> set (done_state pf D es). k' = n \<longrightarrow> y = x"
  proof (clarsimp simp: done_state_def split: if_splits)
    fix m y assume m: "(m, y) \<in> set es" "m \<in> D" "n = replace_content m"
    with nD have "m \<noteq> n" by auto
    with no_clashD(1)[OF nc, of m n] m n show "file_effect pf y = x" by force
  next
    fix y assume "(n, y) \<in> set es"
    with n nc show "y = x" by (auto simp: no_clash_def dest: entry_unique)
  qed
qed

lemma done_state_target_free:
  assumes nc: "no_clash (map fst es)" and n: "(n, x) \<in> set es" and nD: "n \<notin> D"
    and ne: "replace_content n \<noteq> n"
  shows "map_of (done_state pf D es) (replace_content n) = None"
proof -
  have "replace_content n \<notin> fst ` set (done_state pf D es)"
  proof
    assume "replace_content n \<in> fst ` set (done_state pf D es)"
    then obtain m y where m: "(m, y) \<in> set es"
      and k: "(if m \<in> D then replace_content m else m) = replace_content n"
      by (auto simp: done_state_def split: if_splits)
    have mn: "m \<noteq> n" using k ne nD by (auto split: if_splits)
    from m n have "m \<in> set (map fst es)" "n \<in> set (map fst es)" by force+
    from no_clashD[OF nc this(2) this(1)] mn k show False by (auto split: if_splits)
  qed
  then show ?thesis by (simp add: map_of_eq_None_iff)
qed

lemma rename_done_state:
  assumes nc: "no_clash (map fst es)" and n: "(n, x) \<in> set es" and nD: "n \<notin> D"
  shows "rename_key n (replace_content n) (done_state pf D es) = mid_state pf D n es"
  unfolding rename_key_def done_state_def mid_state_def map_map
proof (rule map_cong[OF refl])
  fix e assume e: "e \<in> set es"
  obtain m y where my: "e = (m, y)" by (cases e)
  with e n have "m \<in> set (map fst es)" "n \<in> set (map fst es)" by force+
  note mn = this
  have "replace_content m \<noteq> n" if "m \<in> D"
  proof -
    from that nD have "m \<noteq> n" by auto
    from no_clashD(1)[OF nc mn this] show ?thesis .
  qed
  then show "((\<lambda>(na, x). if na = n then (replace_content n, x) else (na, x)) \<circ>
          (\<lambda>(m, x). if m \<in> D then (replace_content m, file_effect pf x) else (m, x))) e =
         (case e of (m, y) \<Rightarrow> if m \<in> D then (replace_content m, file_effect pf y)
                    else if m = n then (replace_content n, y) else (m, y))"
    using my by auto
qed

lemma mid_state_same:
  assumes "replace_content n = n"
  shows "mid_state pf D n es = done_state pf D es"
  unfolding done_state_def mid_state_def
  by (rule map_cong) (use assms in auto)

lemma mid_state_target:
  assumes nc: "no_clash (map fst es)" and n: "(n, x) \<in> set es" and nD: "n \<notin> D"
  shows "replace_content n \<in> fst ` set (mid_state pf D n es)"
    and "\<forall>(k', y) \<in> set (mid_state pf D n es). k' = replace_content n \<longrightarrow> y = x"
proof -
  from n nD show "replace_content n \<in> fst ` set (mid_state pf D n es)"
    by (force simp: mid_state_def image_iff)
  show "\<forall>(k', y) \<in> set (mid_state pf D n es). k' = replace_content n \<longrightarrow> y = x"
  proof (clarsimp simp: mid_state_def split: if_splits)
    fix m y assume m: "(m, y) \<in> set es" "m \<in> D" "replace_content m = replace_content n"
    with nD have "m \<noteq> n" by auto
    moreover from m n have "m \<in> set (map fst es)" "n \<in> set (map fst es)" by force+
    ultimately show "file_effect pf y = x" using no_clashD(2)[OF nc] m by blast
  next
    fix y assume "(n, y) \<in> set es"
    with n nc show "y = x" by (auto simp: no_clash_def dest: entry_unique)
  next
    fix y assume m: "(replace_content n, y) \<in> set es" "replace_content n \<noteq> n"
    with n have "replace_content n \<in> set (map fst es)" "n \<in> set (map fst es)" by force+
    from no_clashD(1)[OF nc this(2) this(1)] m show "y = x" by auto
  qed
qed

lemma effect_mid_state:
  assumes nc: "no_clash (map fst es)" and n: "(n, x) \<in> set es" and nD: "n \<notin> D"
  shows "map (\<lambda>(k', y). if k' = replace_content n then (k', file_effect pf y) else (k', y))
           (mid_state pf D n es) = done_state pf (insert n D) es"
  unfolding done_state_def mid_state_def map_map
proof (rule map_cong[OF refl])
  fix e assume e: "e \<in> set es"
  obtain m y where my: "e = (m, y)" by (cases e)
  with e n have mn: "m \<in> set (map fst es)" "n \<in> set (map fst es)" by force+
  have 1: "replace_content m \<noteq> replace_content n" if "m \<in> D"
  proof -
    from that nD have "m \<noteq> n" by auto
    from no_clashD(2)[OF nc mn this] show ?thesis .
  qed
  have 2: "m \<noteq> replace_content n" if "m \<noteq> n"
  proof -
    from that have "n \<noteq> m" by auto
    from no_clashD(1)[OF nc mn(2) mn(1) this] show ?thesis by auto
  qed
  show "((\<lambda>(k', y). if k' = replace_content n then (k', file_effect pf y) else (k', y)) \<circ>
          (\<lambda>(m, y). if m \<in> D then (replace_content m, file_effect pf y)
                     else if m = n then (replace_content n, y) else (m, y))) e =
         (case e of (m, x) \<Rightarrow> if m \<in> insert n D then (replace_content m, file_effect pf x) else (m, x))"
    using my 1 2 nD by auto
qed

lemma file_step_done:
  assumes nc: "no_clash (map fst es)" and n: "(n, x) \<in> set es" and nD: "n \<notin> D"
  shows "\<exists>v. file_step pf root n (done_state pf D es) = Inr (done_state pf (insert n D) es, v)"
proof -
  have ren: "(if root @ [n] \<noteq> root @ [replace_content n]
        then os_rename pf n (replace_content n) (done_state pf D es)
        else Inr (done_state pf D es)) = Inr (mid_state pf D n es)"
    using done_state_source[OF assms] done_state_target_free[OF assms]
      rename_done_state[OF assms] mid_state_same[of n pf D es]
    by (auto simp: os_rename_def)
  have "map_of (mid_state pf D n es) (replace_content n) = Some x"
    by (rule map_of_unique) (rule mid_state_target[OF assms])+
  from process_content_effect[OF this mid_state_target(2)[OF assms]] effect_mid_state[OF assms]
  have "fst (process_content pf (replace_content n) (mid_state pf D n es)) =
      done_state pf (insert n D) es" by simp
  with ren show ?thesis
    unfolding file_step_def Let_def by (auto split: prod.splits)
qed

lemma dir_step_done:
  assumes nc: "no_clash (map fst es)" and n: "(n, x) \<in> set es" and nD: "n \<notin> D"
    and dir: "is_dir x"
  shows "\<exists>v. dir_step pf root n (done_state pf D es) = Inr (done_state pf (insert n D) es, v)"
proof -
  have ren: "(if root @ [n] \<noteq> root @ [replace_content n]
        then os_rename pf n (replace_content n) (done_state pf D es)
        else Inr (done_state pf D es)) = Inr (mid_state pf D n es)"
    using done_state_source[OF nc n nD] done_state_target_free[OF nc n nD]
      rename_done_state[OF nc n nD] mid_state_same[of n pf D es]
    by (auto simp: os_rename_def)
  have "map (\<lambda>(k', y). if k' = replace_content n then (k', file_effect pf y) else (k', y))
           (mid_state pf D n es) = map id (mid_state pf D n es)"
  proof (rule map_cong[OF refl])
    fix e assume e: "e \<in> set (mid_state pf D n es)"
    obtain k y where ky: "e = (k, y)" by (cases e)
    from dir have "file_effect pf x = x" by (cases x) (simp_all add: file_effect_def)
    with mid_state_target(2)[OF nc n nD, where pf = pf] e ky
    show "(case e of (k', y) \<Rightarrow> if k' = replace_content n then (k', file_effect pf y) else (k', y)) = id e"
      by auto
  qed
  with effect_mid_state[OF nc n nD] have "mid_state pf D n es = done_state pf (insert n D) es"
    by simp
  with ren show ?thesis
    unfolding dir_step_def Let_def by (auto split: if_splits)
qed

lemma for_each_done:
  assumes step: "\<And>n D. n \<in> S \<Longrightarrow> n \<notin> D \<Longrightarrow>
      \<exists>v. step n (done_state pf D es) = Inr (done_state pf (insert n D) es, v)"
  shows "set ns \<subseteq> S \<Longrightarrow> distinct ns \<Longrightarrow> set ns \<inter> D = {} \<Longrightarrow>
     \<exists>vs. for_each step ns (done_state pf D es) = Inr (done_state pf (D \<union> set ns) es, vs)"
proof (induction ns arbitrary: D)
  case Nil
  then show ?case by simp
next
  case (Cons n ns)
  from Cons.prems step[of n D] obtain v where
    v: "step n (done_state pf D es) = Inr (done_state pf (insert n D) es, v)" by auto
  from Cons.prems have "set ns \<subseteq> S" "distinct ns" "set ns \<inter> insert n D = {}" by auto
  from Cons.IH[OF this] obtain vs where
    "for_each step ns (done_state pf (insert n D) es) =
       Inr (done_state pf (insert n D \<union> set ns) es, vs)" by blast
  with v show ?case by simp
qed

lemma file_effect_children_done: "file_effect pf (children_done pf x) = transform pf x"
  by (cases x) (simp_all add: file_effect_def children_done_def)

lemma is_dir_children_done: "is_dir (children_done pf x) = is_dir x"
  by (cases x) (simp_all add: children_done_def)

lemma done_state_all:
  "fst ` set es \<subseteq> D \<Longrightarrow>
     done_state pf D (map (\<lambda>(n, x). (n, children_done pf x)) es) = transform_entries pf es"
  by (induction es) (auto simp: done_state_def file_effect_children_done)

lemma dir_names_entry: "n \<in> set (dir_names es) \<Longrightarrow> \<exists>x. (n, x) \<in> set es \<and> is_dir x"
  by (auto simp: dir_names_def)

lemma file_names_entry: "n \<in> set (file_names es) \<Longrightarrow> \<exists>x. (n, x) \<in> set es"
  by (auto simp: file_names_def)

lemma run_without_clash:
  "no_collision t \<Longrightarrow> \<exists>L. process_directory pf root t = Inr (children_done pf t, L)"
  and walk_without_clash:
  "no_collision_entries es \<Longrightarrow>
     \<exists>L. walk_subdirs pf root es = Inr (map (\<lambda>(n, x). (n, children_done pf x)) es, L)"
proof (induction pf root t and pf root es rule: process_directory_walk_subdirs.induct)
  case (1 pf root b)
  then show ?case by (simp add: children_done_def)
next
  case (2 pf root es)
  let ?es1 = "map (\<lambda>(n, x). (n, children_done pf x)) es"
  from "2.prems" have nc0: "no_clash (map fst es)" and sub: "no_collision_entries es" by simp_all
  from "2.IH"[OF sub] obtain vs1 where a: "walk_subdirs pf root es = Inr (?es1, vs1)" by blast
  have names: "map fst ?es1 = map fst es" by (induction es) auto
  have nc: "no_clash (map fst ?es1)" unfolding names by (rule nc0)
  have start: "done_state pf {} ?es1 = ?es1" by (simp add: done_state_def)
  from nc0 have d: "distinct (map fst es)" by (simp add: no_clash_def)
  note nd = names_distinct[OF d]
  have "\<exists>v. dir_step pf root n (done_state pf D ?es1) = Inr (done_state pf (insert n D) ?es1, v)"
    if "n \<in> set (dir_names es)" "n \<notin> D" for n D
  proof -
    from dir_names_entry[OF that(1)] obtain x where x: "(n, x) \<in> set es" "is_dir x" by blast
    then have "(n, children_done pf x) \<in> set ?es1" by force
    from dir_step_done[OF nc this that(2)] x(2) show ?thesis
      by (simp add: is_dir_children_done)
  qed
  from for_each_done[where step = "dir_step pf root" and S = "set (dir_names es)" and D = "{}"
      and ns = "dir_names es" and es = ?es1 and pf = pf, OF this] nd start
  obtain vs2 where b: "for_each (dir_step pf root) (dir_names es) ?es1 =
      Inr (done_state pf (set (dir_names es)) ?es1, vs2)" by auto
  have "\<exists>v. file_step pf root n (done_state pf D ?es1) = Inr (done_state pf (insert n D) ?es1, v)"
    if "n \<in> set (file_names es)" "n \<notin> D" for n D
  proof -
    from file_names_entry[OF that(1)] obtain x where x: "(n, x) \<in> set es" by blast
    then have "(n, children_done pf x) \<in> set ?es1" by force
    from file_step_done[OF nc this that(2)] show ?thesis .
  qed
  from for_each_done[where step = "file_step pf root" and S = "set (file_names es)"
      and D = "set (dir_names es)" and ns = "file_names es" and es = ?es1 and pf = pf, OF this] nd
  obtain vs3 where c: "for_each (file_step pf root) (file_names es)
        (done_state pf (set (dir_names es)) ?es1) =
      Inr (done_state pf (set (dir_names es) \<union> set (file_names es)) ?es1, vs3)" by auto
  have "done_state pf (set (dir_names es) \<union> set (file_names es)) ?es1 = transform_entries pf es"
    by (rule done_state_all) (simp add: names_union)
  with a b c show ?case by (simp add: children_done_def)
next
  case (3 pf root)
  then show ?case by simp
next
  case (4 pf root n x es)
  from "4.prems" have x: "no_collision x" and es: "no_collision_entries es" by simp_all
  from "4.IH"(1)[OF x] obtain vs1 where
    a: "process_directory pf (root @ [n]) x = Inr (children_done pf x, vs1)" by blast
  from "4.IH"(2)[OF a refl es] obtain vs2 where
    "walk_subdirs pf root es = Inr (map (\<lambda>(n, x). (n, children_done pf x)) es, vs2)" by blast
  with a show ?case by simp
qed

section \<open>Facts about the content pass\<close>

lemma for_each_all:
  assumes "\<And>n es es' v. step n es = Inr (es', v) \<Longrightarrow> P v"
  shows "for_each step ns es = Inr (es', vs) \<Longrightarrow> \<forall>v \<in> set vs. P v"
proof (induction ns arbitrary: es es' vs)
  case Nil
  then show ?case by simp
next
  case (Cons n ns)
  from Cons.prems obtain es1 v vs' where
    s: "step n es = Inr (es1, v)" and r: "for_each step ns es1 = Inr (es', vs')" and
    vs: "vs = v # vs'"
    by (auto split: sum.splits prod.splits)
  from assms[OF s] Cons.IH[OF r] vs show ?case by simp
qed

lemma run_visits_all:
  "(\<forall>root n es es' v. dir_step pf root n es = Inr (es', v) \<longrightarrow> P v) \<Longrightarrow>
   (\<forall>root n es es' v. file_step pf root n es = Inr (es', v) \<longrightarrow> P v) \<Longrightarrow>
   \<forall>t' L. process_directory pf root t = Inr (t', L) \<longrightarrow> (\<forall>v \<in> set L. P v)"
  and walk_visits_all:
  "(\<forall>root n es es' v. dir_step pf root n es = Inr (es', v) \<longrightarrow> P v) \<Longrightarrow>
   (\<forall>root n es es' v. file_step pf root n es = Inr (es', v) \<longrightarrow> P v) \<Longrightarrow>
   \<forall>es' L. walk_subdirs pf root es = Inr (es', L) \<longrightarrow> (\<forall>v \<in> set L. P v)"
proof (induction pf root t and pf root es rule: process_directory_walk_subdirs.induct)
  case (1 pf root b)
  then show ?case by simp
next
  case (2 pf root es)
  show ?case
  proof (intro allI impI)
    fix t' L
    assume "process_directory pf root (Dir es) = Inr (t', L)"
    then obtain es1 vs1 es2 vs2 es3 vs3 where
      a: "walk_subdirs pf root es = Inr (es1, vs1)" and
      b: "for_each (dir_step pf root) (dir_names es) es1 = Inr (es2, vs2)" and
      c: "for_each (file_step pf root) (file_names es) es2 = Inr (es3, vs3)" and
      L: "L = vs1 @ vs2 @ vs3"
      by (auto split: sum.splits prod.splits)
    from "2.IH"[OF "2.prems"] a have "\<forall>v \<in> set vs1. P v" by blast
    moreover have "\<forall>v \<in> set vs2. P v"
      by (rule for_each_all[OF _ b]) (use "2.prems"(1) in blast)
    moreover have "\<forall>v \<in> set vs3. P v"
      by (rule for_each_all[OF _ c]) (use "2.prems"(2) in blast)
    ultimately show "\<forall>v \<in> set L. P v" using L by auto
  qed
next
  case (3 pf root)
  then show ?case by simp
next
  case (4 pf root n x es)
  show ?case
  proof (intro allI impI)
    fix es' L
    assume "walk_subdirs pf root ((n, x) # es) = Inr (es', L)"
    then obtain x' vs1 es1 vs2 where
      a: "process_directory pf (root @ [n]) x = Inr (x', vs1)" and
      b: "walk_subdirs pf root es = Inr (es1, vs2)" and L: "L = vs1 @ vs2"
      by (auto split: sum.splits prod.splits)
    from "4.IH"(1)[OF "4.prems"] a have "\<forall>v \<in> set vs1. P v" by blast
    moreover from "4.IH"(2)[OF a refl "4.prems"] b have "\<forall>v \<in> set vs2. P v" by blast
    ultimately show "\<forall>v \<in> set L. P v" using L by auto
  qed
qed

lemma process_content_writes_text:
  "process_content pf k es = (es', Updated old new) \<Longrightarrow> locale_decodes pf old"
  by (auto simp: process_content_def is_binary_def Let_def
      split: if_splits option.splits node.splits)

lemma dir_step_writes_text: "dir_step pf root n es = Inr (es', v) \<Longrightarrow> writes_text pf v"
  by (auto simp: dir_step_def Let_def writes_text_def split: if_splits sum.splits)

lemma file_step_writes_text: "file_step pf root n es = Inr (es', v) \<Longrightarrow> writes_text pf v"
  by (auto simp: file_step_def Let_def writes_text_def
      split: if_splits sum.splits prod.splits content_outcome.splits
      dest: process_content_writes_text)

lemma run_writes_text:
  "process_directory pf root t = Inr (t', L) \<Longrightarrow> v \<in> set L \<Longrightarrow> writes_text pf v"
  using run_visits_all[of pf "writes_text pf" root t]
    dir_step_writes_text file_step_writes_text by blast

lemma map_of_rename_key:
  "new \<notin> fst ` set es \<Longrightarrow> map_of (rename_key old new es) new = map_of es old"
  by (induction es) (auto simp: rename_key_def)

lemma map_of_remove_key:
  "old \<noteq> new \<Longrightarrow> map_of (remove_key new es) old = map_of es old"
  by (induction es) (auto simp: remove_key_def)

lemma remove_key_absent: "new \<notin> fst ` set (remove_key new es)"
  by (auto simp: remove_key_def)

lemma os_rename_moves:
  assumes "os_rename pf old new es = Inr es'" "old \<noteq> new" "map_of es old = Some x"
  shows "map_of es' new = Some x"
proof (cases "map_of es new")
  case None
  then have "new \<notin> fst ` set es" by (simp add: map_of_eq_None_iff)
  with assms None show ?thesis by (auto simp: os_rename_def map_of_rename_key)
next
  case (Some dst)
  with assms have "es' = rename_key old new (remove_key new es)"
    by (auto simp: os_rename_def split: if_splits)
  with assms show ?thesis
    by (simp add: map_of_rename_key[OF remove_key_absent] map_of_remove_key)
qed

lemma binary_file_step:
  assumes "map_of es n = Some (File b)" "\<not> locale_decodes pf b"
    and "file_step pf root n es = Inr (es', v)"
  shows "map_of es' (replace_content n) = Some (File b) \<and>
     v = FileVisit (root @ [n]) (expected_target (root @ [n])) SkippedBinary"
proof (cases "replace_content n = n")
  case True
  from assms(1,2) have "process_content pf n es = (es, SkippedBinary)"
    by (simp add: process_content_def is_binary_def)
  with assms(1,3) True show ?thesis
    by (simp add: file_step_def Let_def expected_target_def)
next
  case False
  show ?thesis
  proof (cases "os_rename pf n (replace_content n) es")
    case (Inl e)
    with assms(3) False show ?thesis by (simp add: file_step_def Let_def)
  next
    case (Inr es1)
    from os_rename_moves[OF this _ assms(1)] False
    have at: "map_of es1 (replace_content n) = Some (File b)" by auto
    with assms(2) have "process_content pf (replace_content n) es1 = (es1, SkippedBinary)"
      by (simp add: process_content_def is_binary_def)
    with assms(3) Inr False at show ?thesis
      by (simp add: file_step_def Let_def expected_target_def)
  qed
qed

section \<open>Runs in which no rename meets an existing entry\<close>

text \<open>What ends without an exception on the refusing platform ends the same way on the platform itself.\<close>

lemma keys_done_state: "map fst (done_state pf D es) = map (\<lambda>e. cur_key D (fst e)) es"
  by (auto simp: done_state_def cur_key_def)

lemma refusing_fields:
  "locale_decodes (refusing pf) = locale_decodes pf"
  "utf8_decode (refusing pf) = utf8_decode pf"
  "utf8_encode (refusing pf) = utf8_encode pf"
  "replaces (refusing pf) src dst = False"
  by (simp_all add: refusing_def)

lemma refusing_rewrite: "rewrite_bytes (refusing pf) b = rewrite_bytes pf b"
  by (simp add: rewrite_bytes_def refusing_fields split: option.splits)

lemma refusing_binary: "is_binary (refusing pf) f = is_binary pf f"
  by (simp add: is_binary_def refusing_fields split: option.splits node.splits)

lemma refusing_content:
  "process_content (refusing pf) k es = process_content pf k es"
  "file_effect (refusing pf) x = file_effect pf x"
  by (simp_all add: process_content_def refusing_binary file_effect_def refusing_rewrite
      refusing_fields Let_def split: option.splits node.splits)

lemma os_rename_refusing:
  assumes "os_rename (refusing pf) old new es = Inr es'"
  shows "map_of es new = None" "es' = rename_key old new es" "os_rename pf old new es = Inr es'"
  using assms
  by (auto simp: os_rename_def refusing_fields split: option.splits)

lemma dir_step_refusing:
  "dir_step (refusing pf) root n es = Inr r \<Longrightarrow> dir_step pf root n es = Inr r"
  by (auto simp: dir_step_def Let_def split: if_splits sum.splits dest: os_rename_refusing(3))

lemma file_step_refusing:
  "file_step (refusing pf) root n es = Inr r \<Longrightarrow> file_step pf root n es = Inr r"
  by (auto simp: file_step_def Let_def refusing_content
      split: if_splits sum.splits dest: os_rename_refusing(3))

lemma for_each_refusing:
  assumes "\<And>n es r. stepq n es = Inr r \<Longrightarrow> step n es = Inr r"
  shows "for_each stepq ns es = Inr r \<Longrightarrow> for_each step ns es = Inr r"
proof (induction ns arbitrary: es r)
  case Nil
  then show ?case by simp
next
  case (Cons n ns)
  from Cons.prems obtain es1 v es2 vs where
    s: "stepq n es = Inr (es1, v)" and l: "for_each stepq ns es1 = Inr (es2, vs)"
    and r: "r = (es2, v # vs)"
    by (auto split: sum.splits prod.splits)
  from assms[OF s] Cons.IH[OF l] r show ?case by simp
qed

lemma run_loops_refusing:
  assumes "run_loops (refusing pf) root es es1 = Inr r"
  shows "run_loops pf root es es1 = Inr r"
proof -
  from assms obtain es2 vs2 es3 vs3 where
    a: "for_each (dir_step (refusing pf) root) (dir_names es) es1 = Inr (es2, vs2)" and
    b: "for_each (file_step (refusing pf) root) (file_names es) es2 = Inr (es3, vs3)" and
    r: "r = (es3, vs2 @ vs3)"
    by (auto simp: run_loops_def split: sum.splits prod.splits)
  have "for_each (dir_step pf root) (dir_names es) es1 = Inr (es2, vs2)"
    by (rule for_each_refusing[OF _ a]) (rule dir_step_refusing)
  moreover have "for_each (file_step pf root) (file_names es) es2 = Inr (es3, vs3)"
    by (rule for_each_refusing[OF _ b]) (rule file_step_refusing)
  ultimately show ?thesis using r by (simp add: run_loops_def)
qed

lemma process_directory_loops:
  "process_directory pf root (Dir es) =
     (case walk_subdirs pf root es of
        Inl e \<Rightarrow> Inl e
      | Inr (es1, vs1) \<Rightarrow>
          (case run_loops pf root es es1 of
             Inl e \<Rightarrow> Inl e
           | Inr (es3, vs) \<Rightarrow> Inr (Dir es3, vs1 @ vs)))"
  by (simp add: run_loops_def split: sum.splits prod.splits)

text \<open>
  Without a replacement the names of a directory stay distinct through the loops, and a
  step takes \<open>done_state\<close> to \<open>done_state\<close>.
\<close>

lemma key_rename_mid:
  assumes n: "(n, x) \<in> set es" and nD: "n \<notin> D"
    and U: "\<forall>(m, y) \<in> set es. m \<noteq> n \<longrightarrow> cur_key D m \<noteq> n"
  shows "rename_key n (replace_content n) (done_state pf D es) = mid_state pf D n es"
  unfolding rename_key_def done_state_def mid_state_def map_map
proof (rule map_cong[OF refl])
  fix e assume e: "e \<in> set es"
  obtain m y where my: "e = (m, y)" by (cases e)
  have "replace_content m \<noteq> n" if "m \<in> D"
  proof -
    from that nD have "m \<noteq> n" by auto
    with U e my that show ?thesis by (auto simp: cur_key_def)
  qed
  then show "((\<lambda>(na, x). if na = n then (replace_content n, x) else (na, x)) \<circ>
          (\<lambda>(m, x). if m \<in> D then (replace_content m, file_effect pf x) else (m, x))) e =
         (case e of (m, y) \<Rightarrow> if m \<in> D then (replace_content m, file_effect pf y)
                    else if m = n then (replace_content n, y) else (m, y))"
    using my by auto
qed

lemma key_mid_target:
  assumes d: "distinct (map fst es)" and n: "(n, x) \<in> set es" and nD: "n \<notin> D"
    and V: "\<forall>(m, y) \<in> set es. m \<noteq> n \<longrightarrow> cur_key D m \<noteq> replace_content n"
  shows "replace_content n \<in> fst ` set (mid_state pf D n es)"
    and "\<forall>(k', y) \<in> set (mid_state pf D n es). k' = replace_content n \<longrightarrow> y = x"
proof -
  from n nD show "replace_content n \<in> fst ` set (mid_state pf D n es)"
    by (force simp: mid_state_def image_iff)
  show "\<forall>(k', y) \<in> set (mid_state pf D n es). k' = replace_content n \<longrightarrow> y = x"
  proof (clarsimp simp: mid_state_def split: if_splits)
    fix m y assume m: "(m, y) \<in> set es" "m \<in> D" "replace_content m = replace_content n"
    with nD have "m \<noteq> n" by auto
    with V m show "file_effect pf y = x" by (auto simp: cur_key_def)
  next
    fix y assume "(n, y) \<in> set es"
    with n d show "y = x" by (auto dest: entry_unique)
  next
    fix y assume m: "(replace_content n, y) \<in> set es" "replace_content n \<noteq> n"
      "replace_content n \<notin> D"
    with V show "y = x" by (auto simp: cur_key_def)
  qed
qed

lemma key_effect_mid:
  assumes n: "(n, x) \<in> set es" and nD: "n \<notin> D"
    and V: "\<forall>(m, y) \<in> set es. m \<noteq> n \<longrightarrow> cur_key D m \<noteq> replace_content n"
  shows "map (\<lambda>(k', y). if k' = replace_content n then (k', file_effect pf y) else (k', y))
           (mid_state pf D n es) = done_state pf (insert n D) es"
  unfolding done_state_def mid_state_def map_map
proof (rule map_cong[OF refl])
  fix e assume e: "e \<in> set es"
  obtain m y where my: "e = (m, y)" by (cases e)
  have 1: "replace_content m \<noteq> replace_content n" if "m \<in> D"
  proof -
    from that nD have "m \<noteq> n" by auto
    with V e my that show ?thesis by (auto simp: cur_key_def)
  qed
  have 2: "m \<noteq> replace_content n" if "m \<noteq> n" "m \<notin> D"
    using V e my that by (auto simp: cur_key_def)
  show "((\<lambda>(k', y). if k' = replace_content n then (k', file_effect pf y) else (k', y)) \<circ>
          (\<lambda>(m, y). if m \<in> D then (replace_content m, file_effect pf y)
                     else if m = n then (replace_content n, y) else (m, y))) e =
         (case e of (m, x) \<Rightarrow> if m \<in> insert n D then (replace_content m, file_effect pf x) else (m, x))"
    using my 1 2 nD by auto
qed

lemma key_inj_insert:
  assumes d: "distinct (map fst es)" and n: "(n, x) \<in> set es" and nD: "n \<notin> D"
    and inj: "inj_on (\<lambda>e. cur_key D (fst e)) (set es)"
    and V: "\<forall>(m, y) \<in> set es. m \<noteq> n \<longrightarrow> cur_key D m \<noteq> replace_content n"
  shows "inj_on (\<lambda>e. cur_key (insert n D) (fst e)) (set es)"
proof (rule inj_onI)
  fix e1 e2 assume e: "e1 \<in> set es" "e2 \<in> set es"
    and k: "cur_key (insert n D) (fst e1) = cur_key (insert n D) (fst e2)"
  obtain m1 y1 m2 y2 where p: "e1 = (m1, y1)" "e2 = (m2, y2)" by (cases e1, cases e2)
  have other: "cur_key (insert n D) m = cur_key D m" if "m \<noteq> n" for m
    using that by (simp add: cur_key_def)
  have self: "cur_key (insert n D) n = replace_content n" by (simp add: cur_key_def)
  show "e1 = e2"
  proof (cases "m1 = n")
    case True
    show ?thesis
    proof (cases "m2 = n")
      case True
      with \<open>m1 = n\<close> e p d show ?thesis by (auto dest: entry_unique)
    next
      case False
      with V e p have "cur_key D m2 \<noteq> replace_content n" by auto
      with k p True False other self show ?thesis by simp
    qed
  next
    case False
    show ?thesis
    proof (cases "m2 = n")
      case True
      from V e p False have "cur_key D m1 \<noteq> replace_content n" by auto
      with k p True False other self show ?thesis by simp
    next
      case m2: False
      with False k p other have "cur_key D (fst e1) = cur_key D (fst e2)" by simp
      with inj e show ?thesis by (auto dest: inj_onD)
    qed
  qed
qed

lemma key_conditions:
  assumes n: "(n, x) \<in> set es" and nD: "n \<notin> D"
    and inj: "inj_on (\<lambda>e. cur_key D (fst e)) (set es)"
    and free: "replace_content n \<noteq> n \<Longrightarrow> replace_content n \<notin> fst ` set (done_state pf D es)"
  shows "\<forall>(m, y) \<in> set es. m \<noteq> n \<longrightarrow> cur_key D m \<noteq> n"
    and "\<forall>(m, y) \<in> set es. m \<noteq> n \<longrightarrow> cur_key D m \<noteq> replace_content n"
proof -
  have "cur_key D m \<noteq> n" if m: "(m, y) \<in> set es" "m \<noteq> n" for m y
  proof
    assume k: "cur_key D m = n"
    from nD have "cur_key D n = n" by (simp add: cur_key_def)
    with k have "cur_key D (fst (m, y)) = cur_key D (fst (n, x))" by simp
    with inj m(1) n have "(m, y) = (n, x)" unfolding inj_on_def by blast
    with m(2) show False by simp
  qed
  then show U: "\<forall>(m, y) \<in> set es. m \<noteq> n \<longrightarrow> cur_key D m \<noteq> n" by auto
  show "\<forall>(m, y) \<in> set es. m \<noteq> n \<longrightarrow> cur_key D m \<noteq> replace_content n"
  proof (cases "replace_content n = n")
    case True
    with U show ?thesis by simp
  next
    case False
    from free[OF False] have "replace_content n \<notin> set (map fst (done_state pf D es))" by simp
    then have "replace_content n \<notin> (\<lambda>e. cur_key D (fst e)) ` set es"
      by (simp add: keys_done_state)
    then show ?thesis by force
  qed
qed


lemma refusing_rename_step:
  assumes n: "(n, x) \<in> set es" and nD: "n \<notin> D"
    and inj: "inj_on (\<lambda>e. cur_key D (fst e)) (set es)"
    and ren: "(if replace_content n \<noteq> n
        then os_rename (refusing pf) n (replace_content n) (done_state pf D es)
        else Inr (done_state pf D es)) = Inr mid"
  shows "mid = mid_state pf D n es"
    and "\<forall>(m, y) \<in> set es. m \<noteq> n \<longrightarrow> cur_key D m \<noteq> replace_content n"
proof -
  have free: "replace_content n \<notin> fst ` set (done_state pf D es)" if "replace_content n \<noteq> n"
  proof -
    from ren that have "os_rename (refusing pf) n (replace_content n) (done_state pf D es) = Inr mid"
      by simp
    from os_rename_refusing(1)[OF this] show ?thesis by (simp add: map_of_eq_None_iff)
  qed
  from key_conditions[OF n nD inj free]
  have U: "\<forall>(m, y) \<in> set es. m \<noteq> n \<longrightarrow> cur_key D m \<noteq> n"
    and V: "\<forall>(m, y) \<in> set es. m \<noteq> n \<longrightarrow> cur_key D m \<noteq> replace_content n" by blast+
  show "\<forall>(m, y) \<in> set es. m \<noteq> n \<longrightarrow> cur_key D m \<noteq> replace_content n" by (rule V)
  show "mid = mid_state pf D n es"
  proof (cases "replace_content n = n")
    case True
    with ren show ?thesis by (simp add: mid_state_same)
  next
    case False
    with ren have "os_rename (refusing pf) n (replace_content n) (done_state pf D es) = Inr mid"
      by simp
    from os_rename_refusing(2)[OF this] key_rename_mid[OF n nD U] show ?thesis by simp
  qed
qed

lemma refusing_file_step:
  assumes d: "distinct (map fst es)" and n: "(n, x) \<in> set es" and nD: "n \<notin> D"
    and inj: "inj_on (\<lambda>e. cur_key D (fst e)) (set es)"
    and run: "file_step (refusing pf) root n (done_state pf D es) = Inr (es', v)"
  shows "es' = done_state pf (insert n D) es \<and>
     inj_on (\<lambda>e. cur_key (insert n D) (fst e)) (set es)"
proof (cases "if replace_content n \<noteq> n
        then os_rename (refusing pf) n (replace_content n) (done_state pf D es)
        else Inr (done_state pf D es)")
  case (Inl e)
  with run show ?thesis by (auto simp: file_step_def Let_def split: if_splits)
next
  case (Inr mid)
  from refusing_rename_step[OF n nD inj Inr]
  have mid: "mid = mid_state pf D n es"
    and V: "\<forall>(m, y) \<in> set es. m \<noteq> n \<longrightarrow> cur_key D m \<noteq> replace_content n" by blast+
  have at: "map_of (mid_state pf D n es) (replace_content n) = Some x"
    by (rule map_of_unique) (rule key_mid_target[OF d n nD V])+
  from process_content_effect[OF at key_mid_target(2)[OF d n nD V], of pf]
    key_effect_mid[OF n nD V, of pf]
  have pc: "fst (process_content pf (replace_content n) (mid_state pf D n es)) =
      done_state pf (insert n D) es" by simp
  from run Inr mid have "es' = fst (process_content pf (replace_content n) (mid_state pf D n es))"
    by (auto simp: file_step_def Let_def refusing_content split: if_splits prod.splits)
  with pc key_inj_insert[OF d n nD inj V] show ?thesis by simp
qed

lemma refusing_dir_step:
  assumes d: "distinct (map fst es)" and n: "(n, x) \<in> set es" and nD: "n \<notin> D"
    and dir: "is_dir x"
    and inj: "inj_on (\<lambda>e. cur_key D (fst e)) (set es)"
    and run: "dir_step (refusing pf) root n (done_state pf D es) = Inr (es', v)"
  shows "es' = done_state pf (insert n D) es \<and>
     inj_on (\<lambda>e. cur_key (insert n D) (fst e)) (set es)"
proof (cases "if replace_content n \<noteq> n
        then os_rename (refusing pf) n (replace_content n) (done_state pf D es)
        else Inr (done_state pf D es)")
  case (Inl e)
  with run show ?thesis by (auto simp: dir_step_def Let_def split: if_splits)
next
  case (Inr mid)
  from refusing_rename_step[OF n nD inj Inr]
  have mid: "mid = mid_state pf D n es"
    and V: "\<forall>(m, y) \<in> set es. m \<noteq> n \<longrightarrow> cur_key D m \<noteq> replace_content n" by blast+
  have "map (\<lambda>(k', y). if k' = replace_content n then (k', file_effect pf y) else (k', y))
           (mid_state pf D n es) = map id (mid_state pf D n es)"
  proof (rule map_cong[OF refl])
    fix e assume e: "e \<in> set (mid_state pf D n es)"
    obtain k y where ky: "e = (k, y)" by (cases e)
    from dir have "file_effect pf x = x" by (cases x) (simp_all add: file_effect_def)
    with key_mid_target(2)[OF d n nD V, where pf = pf] e ky
    show "(case e of (k', y) \<Rightarrow> if k' = replace_content n then (k', file_effect pf y) else (k', y)) = id e"
      by auto
  qed
  with key_effect_mid[OF n nD V, of pf]
  have "mid_state pf D n es = done_state pf (insert n D) es" by simp
  moreover from run Inr mid have "es' = mid_state pf D n es"
    by (auto simp: dir_step_def Let_def split: if_splits)
  ultimately show ?thesis using key_inj_insert[OF d n nD inj V] by simp
qed

lemma for_each_quiet:
  assumes step: "\<And>n D es' v. n \<in> S \<Longrightarrow> n \<notin> D \<Longrightarrow>
      inj_on (\<lambda>e. cur_key D (fst e)) (set es) \<Longrightarrow>
      stepq n (done_state pf D es) = Inr (es', v) \<Longrightarrow>
      es' = done_state pf (insert n D) es \<and>
      inj_on (\<lambda>e. cur_key (insert n D) (fst e)) (set es)"
  shows "set ns \<subseteq> S \<Longrightarrow> distinct ns \<Longrightarrow> set ns \<inter> D = {} \<Longrightarrow>
     inj_on (\<lambda>e. cur_key D (fst e)) (set es) \<Longrightarrow>
     for_each stepq ns (done_state pf D es) = Inr (es', vs) \<Longrightarrow>
     es' = done_state pf (D \<union> set ns) es \<and>
     inj_on (\<lambda>e. cur_key (D \<union> set ns) (fst e)) (set es)"
proof (induction ns arbitrary: D vs)
  case Nil
  then show ?case by simp
next
  case (Cons n ns)
  from Cons.prems(5) obtain es1 v vs' where
    s: "stepq n (done_state pf D es) = Inr (es1, v)" and
    l: "for_each stepq ns es1 = Inr (es', vs')"
    by (auto split: sum.splits prod.splits)
  from Cons.prems have nS: "n \<in> S" and nD: "n \<notin> D" by auto
  from step[OF nS nD Cons.prems(4) s]
  have es1: "es1 = done_state pf (insert n D) es"
    and inj: "inj_on (\<lambda>e. cur_key (insert n D) (fst e)) (set es)" by blast+
  from Cons.prems have "set ns \<subseteq> S" "distinct ns" "set ns \<inter> insert n D = {}" by auto
  from Cons.IH[OF this inj l[unfolded es1]] show ?case by simp
qed

lemma loops_quiet:
  assumes d: "distinct (map fst es1)"
    and dirs: "\<forall>n \<in> set dns. \<exists>x. (n, x) \<in> set es1 \<and> is_dir x"
    and files: "set fns \<subseteq> fst ` set es1"
    and dist: "distinct (dns @ fns)"
    and a: "for_each (dir_step (refusing pf) root) dns es1 = Inr (es2, vs2)"
    and b: "for_each (file_step (refusing pf) root) fns es2 = Inr (es3, vs3)"
  shows "es3 = done_state pf (set dns \<union> set fns) es1 \<and> distinct (map fst es3)"
proof -
  have start: "done_state pf {} es1 = es1" by (simp add: done_state_def)
  from d have inj0: "inj_on (\<lambda>e. cur_key {} (fst e)) (set es1)"
    by (simp add: distinct_map cur_key_def)
  have stepd: "es' = done_state pf (insert n D) es1 \<and>
      inj_on (\<lambda>e. cur_key (insert n D) (fst e)) (set es1)"
    if "n \<in> set dns" "n \<notin> D" "inj_on (\<lambda>e. cur_key D (fst e)) (set es1)"
      "dir_step (refusing pf) root n (done_state pf D es1) = Inr (es', v)" for n D es' v
  proof -
    from dirs that(1) obtain x where x: "(n, x) \<in> set es1" "is_dir x" by blast
    from refusing_dir_step[OF d x(1) that(2) x(2) that(3) that(4)] show ?thesis .
  qed
  from dist have dd: "distinct dns" "distinct fns" "set fns \<inter> set dns = {}" by auto
  from a start have a': "for_each (dir_step (refusing pf) root) dns (done_state pf {} es1) =
      Inr (es2, vs2)" by simp
  from for_each_quiet[where stepq = "dir_step (refusing pf) root" and S = "set dns" and D = "{}"
      and pf = pf and es = es1, OF stepd _ dd(1) _ inj0 a']
  have es2: "es2 = done_state pf (set dns) es1"
    and inj2: "inj_on (\<lambda>e. cur_key (set dns) (fst e)) (set es1)" by auto
  have stepf: "es' = done_state pf (insert n D) es1 \<and>
      inj_on (\<lambda>e. cur_key (insert n D) (fst e)) (set es1)"
    if "n \<in> set fns" "n \<notin> D" "inj_on (\<lambda>e. cur_key D (fst e)) (set es1)"
      "file_step (refusing pf) root n (done_state pf D es1) = Inr (es', v)" for n D es' v
  proof -
    from files that(1) obtain x where x: "(n, x) \<in> set es1" by force
    from refusing_file_step[OF d x that(2) that(3) that(4)] show ?thesis .
  qed
  from for_each_quiet[where stepq = "file_step (refusing pf) root" and S = "set fns"
      and D = "set dns" and pf = pf and es = es1, OF stepf _ dd(2) dd(3) inj2 b[unfolded es2]]
  have es3: "es3 = done_state pf (set dns \<union> set fns) es1"
    and inj3: "inj_on (\<lambda>e. cur_key (set dns \<union> set fns) (fst e)) (set es1)" by auto
  from d have "distinct es1" by (simp add: distinct_map)
  with inj3 have "distinct (map fst (done_state pf (set dns \<union> set fns) es1))"
    by (simp add: keys_done_state distinct_map)
  with es3 show ?thesis by simp
qed

text \<open>The walk into the sub-directories keeps the names and the kinds of the entries.\<close>

lemma process_kind:
  "process_directory pf root x = Inr (x1, L) \<Longrightarrow> is_dir x1 = is_dir x"
  by (cases x) (auto split: sum.splits prod.splits)

lemma walk_keys:
  "walk_subdirs pf root es = Inr (es1, vs) \<Longrightarrow> map fst es1 = map fst es"
proof (induction es arbitrary: es1 vs)
  case Nil
  then show ?case by simp
next
  case (Cons e es)
  obtain n x where e: "e = (n, x)" by (cases e)
  from Cons.prems e obtain x' es' vs2 where
    "walk_subdirs pf root es = Inr (es', vs2)" "es1 = (n, x') # es'"
    by (auto split: sum.splits prod.splits)
  with Cons.IH e show ?case by auto
qed

lemma walk_names:
  "walk_subdirs pf root es = Inr (es1, vs) \<Longrightarrow>
     dir_names es1 = dir_names es \<and> file_names es1 = file_names es"
proof (induction es arbitrary: es1 vs)
  case Nil
  then show ?case by simp
next
  case (Cons e es)
  obtain n x where e: "e = (n, x)" by (cases e)
  from Cons.prems e obtain x' vs1 es' vs2 where
    a: "process_directory pf (root @ [n]) x = Inr (x', vs1)" and
    b: "walk_subdirs pf root es = Inr (es', vs2)" and c: "es1 = (n, x') # es'"
    by (auto split: sum.splits prod.splits)
  from Cons.IH[OF b] process_kind[OF a] e c show ?case
    by (simp add: dir_names_def file_names_def)
qed

lemma walk_entry:
  "walk_subdirs pf root es = Inr (es1, vs) \<Longrightarrow> distinct (map fst es) \<Longrightarrow>
     map_of es n = Some x \<Longrightarrow>
     \<exists>x1 L1. process_directory pf (root @ [n]) x = Inr (x1, L1) \<and> map_of es1 n = Some x1"
proof (induction es arbitrary: es1 vs)
  case Nil
  then show ?case by simp
next
  case (Cons e es)
  obtain m y where e: "e = (m, y)" by (cases e)
  from Cons.prems(1) e obtain y' vs1 es' vs2 where
    a: "process_directory pf (root @ [m]) y = Inr (y', vs1)" and
    b: "walk_subdirs pf root es = Inr (es', vs2)" and c: "es1 = (m, y') # es'"
    by (auto split: sum.splits prod.splits)
  show ?case
  proof (cases "m = n")
    case True
    with Cons.prems(3) e have "y = x" by simp
    with a c True show ?thesis by auto
  next
    case False
    with Cons.prems e have "distinct (map fst es)" "map_of es n = Some x" by auto
    from Cons.IH[OF b this] c False show ?thesis by auto
  qed
qed

lemma wf_entry: "wf_entries es \<Longrightarrow> (n, x) \<in> set es \<Longrightarrow> wf_tree x"
  by (induction es) auto

text \<open>The entry at a path along which no rename meets an existing entry.\<close>

lemma level_quiet:
  assumes d: "distinct (map fst es)"
    and walk: "walk_subdirs pf root es = Inr (es1, vs1)"
    and loops: "run_loops (refusing pf) root es es1 = Inr (es3, vs)"
    and n: "map_of es1 n = Some y1"
  shows "map_of es3 (replace_content n) = Some (file_effect pf y1)"
proof -
  from walk_keys[OF walk] d have d1: "distinct (map fst es1)" by simp
  from walk_names[OF walk] have names: "dir_names es1 = dir_names es"
    "file_names es1 = file_names es" by simp_all
  from loops obtain es2 vs2 vs3 where
    a: "for_each (dir_step (refusing pf) root) (dir_names es) es1 = Inr (es2, vs2)" and
    b: "for_each (file_step (refusing pf) root) (file_names es) es2 = Inr (es3, vs3)"
    by (auto simp: run_loops_def split: sum.splits prod.splits)
  have dirs: "\<forall>n \<in> set (dir_names es). \<exists>x. (n, x) \<in> set es1 \<and> is_dir x"
    using dir_names_entry[of _ es1] names by auto
  have files: "set (file_names es) \<subseteq> fst ` set es1"
    using names_union[of es1] names by auto
  from names_distinct[OF d] have dist: "distinct (dir_names es @ file_names es)" by auto
  from loops_quiet[OF d1 dirs files dist a b]
  have es3: "es3 = done_state pf (set (dir_names es) \<union> set (file_names es)) es1"
    and d3: "distinct (map fst es3)" by blast+
  from n have mem: "(n, y1) \<in> set es1" by (rule map_of_SomeD)
  then have "n \<in> fst ` set es1" by force
  with names_union[of es1] names have "n \<in> set (dir_names es) \<union> set (file_names es)" by simp
  with mem have "(replace_content n, file_effect pf y1) \<in> set es3"
    unfolding es3 done_state_def by force
  with d3 show ?thesis by simp
qed

lemma file_effect_dir: "is_dir x \<Longrightarrow> file_effect pf x = x"
  by (cases x) (simp_all add: file_effect_def)

lemma lookup_dir: "lookup y (m # p) = Some x \<Longrightarrow> is_dir y"
  by (cases y) simp_all

lemma entry_kept_along:
  "wf_tree t \<Longrightarrow> process_directory pf root t = Inr (t', L) \<Longrightarrow>
     no_replacement_along pf root t p \<Longrightarrow> lookup t p = Some x \<Longrightarrow> p \<noteq> [] \<Longrightarrow>
     \<exists>x1 L1. process_directory pf (root @ p) x = Inr (x1, L1) \<and>
        lookup t' (map replace_content p) = Some (file_effect pf x1)"
proof (induction p arbitrary: t root t' L)
  case Nil
  then show ?case by simp
next
  case (Cons n p)
  from Cons.prems(4) obtain es where t: "t = Dir es" by (cases t) simp_all
  from Cons.prems(1) t have d: "distinct (map fst es)" and wfe: "wf_entries es" by simp_all
  from Cons.prems(3) t obtain es1 vs1 r y where
    walk: "walk_subdirs pf root es = Inr (es1, vs1)" and
    quiet: "run_loops (refusing pf) root es es1 = Inr r" and
    y: "map_of es n = Some y" and
    deeper: "no_replacement_along pf (root @ [n]) y p"
    by (auto split: sum.splits prod.splits option.splits)
  obtain es3 vs where r: "r = (es3, vs)" by (cases r)
  from Cons.prems(2) have "(case walk_subdirs pf root es of
        Inl e \<Rightarrow> Inl e
      | Inr (es1, vs1) \<Rightarrow>
          (case run_loops pf root es es1 of
             Inl e \<Rightarrow> Inl e
           | Inr (es3, vs) \<Rightarrow> Inr (Dir es3, vs1 @ vs))) = Inr (t', L)"
    unfolding t process_directory_loops .
  with run_loops_refusing[OF quiet] walk r have t': "t' = Dir es3" by simp
  from walk_entry[OF walk d y] obtain y1 L1 where
    py: "process_directory pf (root @ [n]) y = Inr (y1, L1)" and y1: "map_of es1 n = Some y1"
    by blast
  from level_quiet[OF d walk quiet[unfolded r] y1]
  have at: "map_of es3 (replace_content n) = Some (file_effect pf y1)" .
  from Cons.prems(4) t y have lx: "lookup y p = Some x" by simp
  show ?case
  proof (cases p)
    case Nil
    with lx have "y = x" by simp
    with py at t' Nil show ?thesis by auto
  next
    case (Cons m p')
    from wf_entry[OF wfe map_of_SomeD[OF y]] have wfy: "wf_tree y" .
    from Cons.IH[OF wfy py deeper lx] Cons obtain x1 L2 where
      px: "process_directory pf ((root @ [n]) @ p) x = Inr (x1, L2)" and
      l1: "lookup y1 (map replace_content p) = Some (file_effect pf x1)" by auto
    from lx Cons have "is_dir y" by (auto dest: lookup_dir)
    with process_kind[OF py] have "file_effect pf y1 = y1" by (simp add: file_effect_dir)
    with at l1 t' px show ?thesis by auto
  qed
qed


section \<open>Following an entry through the renames\<close>

lemma keys_rename_key:
  "map fst (rename_key old new es) = map (\<lambda>k. if k = old then new else k) (map fst es)"
  by (induction es) (auto simp: rename_key_def)

lemma keys_remove_key: "map fst (remove_key new es) = filter (\<lambda>k. k \<noteq> new) (map fst es)"
  by (induction es) (auto simp: remove_key_def)

lemma rename_key_distinct:
  assumes "distinct (map fst es)" "new \<notin> fst ` set es"
  shows "distinct (map fst (rename_key old new es))"
proof -
  have "inj_on (\<lambda>k. if k = old then new else k) (set (map fst es))"
    using assms(2) by (auto simp: inj_on_def)
  with assms(1) have "distinct (map (\<lambda>k. if k = old then new else k) (map fst es))"
    by (subst distinct_map) blast
  then show ?thesis by (simp only: keys_rename_key)
qed

lemma map_of_rename_other:
  "k \<noteq> old \<Longrightarrow> k \<noteq> new \<Longrightarrow> map_of (rename_key old new es) k = map_of es k"
  by (induction es) (auto simp: rename_key_def)

lemma os_rename_distinct:
  assumes "distinct (map fst es)" "os_rename pf old new es = Inr es'"
  shows "distinct (map fst es')"
proof (cases "map_of es new")
  case None
  then have "new \<notin> fst ` set es" by (simp add: map_of_eq_None_iff)
  with assms None show ?thesis
    by (auto simp: os_rename_def rename_key_distinct split: option.splits)
next
  case (Some dst)
  with assms have es': "es' = rename_key old new (remove_key new es)"
    by (auto simp: os_rename_def split: option.splits if_splits)
  from assms(1) have "distinct (map fst (remove_key new es))" by (simp add: keys_remove_key)
  from rename_key_distinct[OF this remove_key_absent] es' show ?thesis by simp
qed

lemma os_rename_other:
  assumes "os_rename pf old new es = Inr es'" "k \<noteq> old" "k \<noteq> new"
  shows "map_of es' k = map_of es k"
  using assms
  by (auto simp: os_rename_def map_of_rename_other map_of_remove_key
      split: option.splits if_splits)

lemma write_file_keys: "map fst (write_file name b es) = map fst es"
  by (induction es) (auto simp: write_file_def)

lemma write_file_other: "k \<noteq> name \<Longrightarrow> map_of (write_file name b es) k = map_of es k"
  by (induction es) (auto simp: write_file_def)

lemma process_content_keys: "map fst (fst (process_content pf name es)) = map fst es"
  by (auto simp: process_content_def write_file_keys Let_def
      split: option.splits node.splits)

lemma process_content_other:
  "k \<noteq> name \<Longrightarrow> map_of (fst (process_content pf name es)) k = map_of es k"
  by (auto simp: process_content_def write_file_other Let_def
      split: option.splits node.splits)

lemma process_content_inert:
  "map_of es name = Some y \<Longrightarrow> is_binary pf (Some y) \<Longrightarrow>
     fst (process_content pf name es) = es"
  by (simp add: process_content_def)

lemma rename_track:
  assumes d: "distinct (map fst es)" and k: "map_of es k = Some y"
    and ren: "(if replace_content n \<noteq> n then os_rename pf n (replace_content n) es
               else Inr es) = Inr es1"
    and tr: "track [n] k = Some k'"
  shows "map_of es1 k' = Some y \<and> distinct (map fst es1)"
proof (cases "replace_content n = n")
  case True
  with ren tr d k show ?thesis by simp
next
  case False
  with ren have r: "os_rename pf n (replace_content n) es = Inr es1" by simp
  note d1 = os_rename_distinct[OF d r]
  show ?thesis
  proof (cases "k = n")
    case True
    with tr False have "k' = replace_content n" by simp
    with os_rename_moves[OF r _ k[unfolded True]] False d1 show ?thesis by auto
  next
    case kn: False
    with tr False have "k \<noteq> replace_content n" "k' = k" by (auto split: if_splits)
    with os_rename_other[OF r kn] k d1 show ?thesis by simp
  qed
qed

lemma dir_step_track:
  assumes "distinct (map fst es)" "map_of es k = Some y"
    and "dir_step pf root n es = Inr (es', v)" and "track [n] k = Some k'"
  shows "map_of es' k' = Some y \<and> distinct (map fst es')"
proof -
  from assms(3) have "(if replace_content n \<noteq> n then os_rename pf n (replace_content n) es
               else Inr es) = Inr es'"
    by (auto simp: dir_step_def Let_def split: if_splits sum.splits)
  from rename_track[OF assms(1,2) this assms(4)] show ?thesis .
qed

lemma file_step_track:
  assumes "distinct (map fst es)" "map_of es k = Some y" "is_binary pf (Some y)"
    and "file_step pf root n es = Inr (es', v)" and "track [n] k = Some k'"
  shows "map_of es' k' = Some y \<and> distinct (map fst es')"
proof -
  from assms(4) obtain es1 where
    ren: "(if replace_content n \<noteq> n then os_rename pf n (replace_content n) es
               else Inr es) = Inr es1" and
    es': "es' = fst (process_content pf (replace_content n) es1)"
    by (auto simp: file_step_def Let_def split: if_splits sum.splits prod.splits)
  from rename_track[OF assms(1,2) ren assms(5)]
  have at: "map_of es1 k' = Some y" and d1: "distinct (map fst es1)" by blast+
  have "map_of es' k' = Some y"
  proof (cases "k' = replace_content n")
    case True
    with at assms(3) es' show ?thesis by (simp add: process_content_inert)
  next
    case False
    with at es' show ?thesis by (simp add: process_content_other)
  qed
  with d1 es' show ?thesis by (simp add: process_content_keys)
qed

lemma track_Cons:
  "track (n # ns) k = (case track [n] k of None \<Rightarrow> None | Some k' \<Rightarrow> track ns k')"
  by simp

lemma track_append:
  "track (xs @ ys) k = (case track xs k of None \<Rightarrow> None | Some k' \<Rightarrow> track ys k')"
  by (induction xs arbitrary: k) auto

lemma for_each_track:
  assumes step: "\<And>n es k es' v k'. distinct (map fst es) \<Longrightarrow> map_of es k = Some y \<Longrightarrow>
      step n es = Inr (es', v) \<Longrightarrow> track [n] k = Some k' \<Longrightarrow>
      map_of es' k' = Some y \<and> distinct (map fst es')"
  shows "distinct (map fst es) \<Longrightarrow> map_of es k = Some y \<Longrightarrow>
     for_each step ns es = Inr (es', vs) \<Longrightarrow> track ns k = Some k' \<Longrightarrow>
     map_of es' k' = Some y \<and> distinct (map fst es')"
proof (induction ns arbitrary: es k vs)
  case Nil
  then show ?case by simp
next
  case (Cons n ns)
  from Cons.prems(3) obtain es1 v vs' where
    s: "step n es = Inr (es1, v)" and l: "for_each step ns es1 = Inr (es', vs')"
    by (auto split: sum.splits prod.splits)
  from Cons.prems(4) obtain k1 where k1: "track [n] k = Some k1" and k': "track ns k1 = Some k'"
    unfolding track_Cons[of n ns] by (auto split: option.splits)
  from step[OF Cons.prems(1,2) s k1] have "map_of es1 k1 = Some y" "distinct (map fst es1)"
    by blast+
  from Cons.IH[OF this(2,1) l k'] show ?case .
qed

lemma level_track:
  assumes d: "distinct (map fst es1)" and k: "map_of es1 n = Some y"
    and inert: "is_binary pf (Some y)"
    and loops: "run_loops pf root es es1 = Inr (es3, vs)"
    and tr: "track (dir_names es @ file_names es) n = Some k"
  shows "map_of es3 k = Some y"
proof -
  from loops obtain es2 vs2 vs3 where
    a: "for_each (dir_step pf root) (dir_names es) es1 = Inr (es2, vs2)" and
    b: "for_each (file_step pf root) (file_names es) es2 = Inr (es3, vs3)"
    by (auto simp: run_loops_def split: sum.splits prod.splits)
  from tr obtain k1 where k1: "track (dir_names es) n = Some k1"
    and k2: "track (file_names es) k1 = Some k"
    by (auto simp: track_append split: option.splits)
  have "map_of es2 k1 = Some y \<and> distinct (map fst es2)"
    by (rule for_each_track[where step = "dir_step pf root", OF _ d k a k1])
      (rule dir_step_track)
  then have m2: "map_of es2 k1 = Some y" and d2: "distinct (map fst es2)" by blast+
  have "map_of es3 k = Some y \<and> distinct (map fst es3)"
    by (rule for_each_track[where step = "file_step pf root", OF _ d2 m2 b k2])
      (rule file_step_track[OF _ _ inert])
  then show ?thesis by blast
qed

lemma process_inert:
  "process_directory pf root y = Inr (y1, L) \<Longrightarrow> is_binary pf (Some y) \<Longrightarrow>
     is_binary pf (Some y1)"
  by (cases y) (auto simp: is_binary_def split: sum.splits prod.splits)

lemma entry_tracked:
  "wf_tree t \<Longrightarrow> process_directory pf root t = Inr (t', L) \<Longrightarrow> lookup t p = Some x \<Longrightarrow>
     is_binary pf (Some x) \<Longrightarrow> final_path t p = Some q \<Longrightarrow>
     \<exists>x1 L1. process_directory pf (root @ p) x = Inr (x1, L1) \<and> lookup t' q = Some x1"
proof (induction p arbitrary: t root t' L q)
  case Nil
  then show ?case by simp
next
  case (Cons n p)
  from Cons.prems(3) obtain es where t: "t = Dir es" by (cases t) simp_all
  from Cons.prems(1) t have d: "distinct (map fst es)" and wfe: "wf_entries es" by simp_all
  from Cons.prems(3) t obtain y where y: "map_of es n = Some y" and lx: "lookup y p = Some x"
    by (auto split: option.splits)
  from Cons.prems(5) t y obtain q' k where
    fq: "final_path y p = Some q'" and
    tr: "track (dir_names es @ file_names es) n = Some k" and q: "q = k # q'"
    by (auto split: option.splits)
  from Cons.prems(2) have run: "(case walk_subdirs pf root es of
        Inl e \<Rightarrow> Inl e
      | Inr (es1, vs1) \<Rightarrow>
          (case run_loops pf root es es1 of
             Inl e \<Rightarrow> Inl e
           | Inr (es3, vs) \<Rightarrow> Inr (Dir es3, vs1 @ vs))) = Inr (t', L)"
    unfolding t process_directory_loops .
  then obtain es1 vs1 es3 vs where
    walk: "walk_subdirs pf root es = Inr (es1, vs1)" and
    loops: "run_loops pf root es es1 = Inr (es3, vs)" and t': "t' = Dir es3"
    by (auto split: sum.splits prod.splits)
  from walk_entry[OF walk d y] obtain y1 L1 where
    py: "process_directory pf (root @ [n]) y = Inr (y1, L1)" and y1: "map_of es1 n = Some y1"
    by blast
  from wf_entry[OF wfe map_of_SomeD[OF y]] have wfy: "wf_tree y" .
  from Cons.IH[OF wfy py lx Cons.prems(4) fq] obtain x1 L2 where
    px: "process_directory pf ((root @ [n]) @ p) x = Inr (x1, L2)" and
    l1: "lookup y1 q' = Some x1" by blast
  have "is_binary pf (Some y)"
  proof (cases p)
    case Nil
    with lx Cons.prems(4) show ?thesis by simp
  next
    case (Cons m p')
    with lx have "is_dir y" by (auto dest: lookup_dir)
    then show ?thesis by (cases y) (simp_all add: is_binary_def)
  qed
  from process_inert[OF py this] have inert: "is_binary pf (Some y1)" .
  from walk_keys[OF walk] d have d1: "distinct (map fst es1)" by simp
  from level_track[OF d1 y1 inert loops tr] have "map_of es3 k = Some y1" .
  with l1 t' q px show ?case by auto
qed

section \<open>Facts about the push loop and the sample run\<close>

lemma range3: "[0..<3] = [0, 1, 2]"
  by (simp add: upt_rec)

lemma push_loop_succeeds:
  assumes "k \<le> 2" "\<forall>i<k. raises i" "\<not> raises k"
  shows "push_loop raises b [0..<3] = (True, concat (replicate k [Push b, Sleep 5]) @ [Push b])"
proof -
  from assms(1) consider "k = 0" | "k = 1" | "k = 2" by linarith
  then show ?thesis
  proof cases
    case 1
    with assms show ?thesis by (simp add: range3)
  next
    case 2
    with assms show ?thesis by (simp add: range3)
  next
    case 3
    with assms have "raises 0" "raises 1" "\<not> raises 2" by simp_all
    with 3 show ?thesis by (simp add: range3 numeral_2_eq_2)
  qed
qed

lemma push_loop_gives_up:
  assumes "raises 0" "raises 1" "raises 2"
  shows "push_loop raises b [0..<3] = (False, [Push b, Sleep 5, Push b, Sleep 5, Push b])"
  using assms by (simp add: range3)

lemma sample_run:
  "process_directory ascii_unix [''repo''] (Dir sample_entries) = Inr (sample_result, sample_log)"
  by code_simp

lemma sibling_run:
  "process_directory ascii_unix [''repo''] (Dir sibling_entries)
     = Inr (sibling_result, sibling_log)"
  by code_simp

section \<open>The claims\<close>



text \<open>
  Claim C2 (as amended). For every directory entry and every file entry that the tree
  transformer visits, the new name is the substitution pass applied to the name of the
  entry, without \<open>camel_to_kebab\<close>, and the entry is renamed exactly when that name differs
  from its current name: in a run that ends without an exception every entry of the tree
  is visited, and the new path recorded for a visit is \<open>expected_target\<close> of the visited
  path. When no rename meets another entry, the run ends without an exception and leaves
  the tree in which every name \<open>n\<close> has become \<open>replace_content n\<close>.
\<close>

theorem entries_renamed_by_substitution:
  "(process_directory pf root t = Inr (t', L) \<longrightarrow>
      set (map visit_path L) = set (entry_paths root t)
      \<and> (\<forall>v \<in> set L. visit_target v = expected_target (visit_path v)))
   \<and> (no_collision (Dir es) \<longrightarrow>
      (\<exists>L. process_directory pf root (Dir es) = Inr (Dir (transform_entries pf es), L)))"
proof (intro conjI impI)
  assume run: "process_directory pf root t = Inr (t', L)"
  with log_follows_order have "map visit_path L = visit_order root t" by blast
  then show "set (map visit_path L) = set (entry_paths root t)"
    by (simp add: visit_order_covers)
  from log_follows_order run
  show "\<forall>v \<in> set L. visit_target v = expected_target (visit_path v)" by blast
next
  assume "no_collision (Dir es)"
  from run_without_clash[OF this, of pf root]
  show "\<exists>L. process_directory pf root (Dir es) = Inr (Dir (transform_entries pf es), L)"
    by (simp add: children_done_def)
qed

theorem entries_renamed_by_substitution_witness:
  "process_directory ascii_unix [''repo''] (Dir sample_entries) = Inr (sample_result, sample_log)
   \<and> set (map visit_path sample_log) = set (entry_paths [''repo''] (Dir sample_entries))
   \<and> map visit_target sample_log = map (\<lambda>v. expected_target (visit_path v)) sample_log
   \<and> expected_target [''repo'', ''biotools''] = Some [''repo'', ''bioagents'']
   \<and> no_collision (Dir sample_entries)
   \<and> transform_entries ascii_unix sample_entries
       = [(''bioagents'',
           Dir [(''Agent.txt'', File (map (\<lambda>c. of_nat (of_char c)) ''use agents'')),
                (''logo.png'', File [0x89, 0x50])]),
          (''FooBar'', File [])]"
proof -
  have nc: "no_collision (Dir sample_entries)" by code_simp
  have e: "expected_target [''repo'', ''biotools''] = Some [''repo'', ''bioagents'']"
    by code_simp
  have t: "transform_entries ascii_unix sample_entries
       = [(''bioagents'',
           Dir [(''Agent.txt'', File (map (\<lambda>c. of_nat (of_char c)) ''use agents'')),
                (''logo.png'', File [0x89, 0x50])]),
          (''FooBar'', File [])]" by code_simp
  from entries_renamed_by_substitution[of ascii_unix "[''repo'']" "Dir sample_entries"
      sample_result sample_log sample_entries] sample_run
  have "set (map visit_path sample_log) = set (entry_paths [''repo''] (Dir sample_entries))"
    and "\<forall>v \<in> set sample_log. visit_target v = expected_target (visit_path v)" by blast+
  with sample_run nc e t show ?thesis by simp
qed

text \<open>
  Claim C2 as first stated, with \<open>camel_to_kebab\<close> applied to the entries, fails: the run
  leaves the directory \<open>HTTPServer\<close> and the file \<open>FooBar\<close> under their names, although
  \<open>camel_to_kebab\<close> after the substitution pass turns these names into \<open>HTTP-server\<close> and
  \<open>foo-bar\<close>.
\<close>

theorem entry_name_not_kebab:
  "process_directory ascii_unix [''repo''] (Dir [(''HTTPServer'', Dir []), (''FooBar'', File [])])
     = Inr (Dir [(''HTTPServer'', Dir []), (''FooBar'', File [])],
            [DirVisit [''repo'', ''HTTPServer''] None,
             FileVisit [''repo'', ''FooBar''] None Unchanged])
   \<and> camel_to_kebab (replace_content ''HTTPServer'') = ''HTTP-server''
   \<and> camel_to_kebab (replace_content ''FooBar'') = ''foo-bar''"
  by code_simp

text \<open>
  Claim C3. \<open>camel_to_kebab\<close> is idempotent: converting a converted name changes nothing.
\<close>

theorem camel_to_kebab_idempotent: "camel_to_kebab (camel_to_kebab x) = camel_to_kebab x"
proof (cases "CHR ''-'' \<in> set x")
  case True
  then show ?thesis by (simp add: camel_to_kebab_def)
next
  case False
  from pattern_split_cases[of x] show ?thesis
  proof
    assume one: "pattern_split x = [x]"
    then have cx: "camel_to_kebab x = process_part x"
      using False by (simp add: camel_to_kebab_def)
    show ?thesis
    proof (cases "str_isupper x \<and> length x > 1")
      case True
      then have "camel_to_kebab x = x" using cx by (simp add: process_part_def)
      then show ?thesis by simp
    next
      case not_acronym: False
      then have y: "camel_to_kebab x = str_lower x" using cx by (simp add: process_part_def)
      have "CHR ''-'' \<notin> set (str_lower x)" using False str_lower_dash by blast
      moreover have "pattern_split (str_lower x) = [str_lower x]"
        by (rule pattern_split_no_capital) (rule str_lower_no_capital)
      moreover have "process_part (str_lower x) = str_lower x"
        by (simp add: process_part_def str_lower_idem)
      ultimately have "camel_to_kebab (str_lower x) = str_lower x"
        by (simp add: camel_to_kebab_def)
      with y show ?thesis by simp
    qed
  next
    assume "2 \<le> length (pattern_split x)"
    then have "2 \<le> length (map process_part (pattern_split x))" by simp
    from str_join_has_sep[OF this, of "''-''"]
    have "CHR ''-'' \<in> set (camel_to_kebab x)"
      using False by (simp add: camel_to_kebab_def)
    then show ?thesis by (simp add: camel_to_kebab_def[of "camel_to_kebab x"])
  qed
qed

theorem camel_to_kebab_idempotent_witness:
  "camel_to_kebab ''FooBarBaz'' = ''foo-bar-baz''
   \<and> camel_to_kebab (camel_to_kebab ''FooBarBaz'') = ''foo-bar-baz''"
proof -
  have "camel_to_kebab ''FooBarBaz'' = ''foo-bar-baz''" by code_simp
  with camel_to_kebab_idempotent[of "''FooBarBaz''"] show ?thesis by simp
qed



text \<open>
  Claim C5 (as amended). A file that \<open>is_binary\<close> classifies as binary is renamed like any
  other entry and its content is never rewritten. Every content write of a run is on
  bytes that decode. The visit of a binary file leaves its bytes, under the new name,
  with the outcome \<open>SkippedBinary\<close>. After a run that ends without an exception, on a tree
  whose directories hold no name twice, a binary file is found with the same bytes under
  the path that the renames of the run have given to it, unless a rename has replaced
  the file or a directory above it (\<open>final_path\<close> is then \<open>None\<close>). When no rename in the
  file's directory or in a directory above it meets an existing entry, that path is the
  file's path with the substitution pass applied to every component.
\<close>

theorem binary_content_kept:
  "(process_directory pf root t = Inr (t', L) \<longrightarrow>
      (\<forall>v \<in> set L. \<forall>p tgt old new.
         v = FileVisit p tgt (Updated old new) \<longrightarrow> locale_decodes pf old))
   \<and> (map_of ds n = Some (File b) \<and> \<not> locale_decodes pf b
       \<and> file_step pf root n ds = Inr (ds', v) \<longrightarrow>
      map_of ds' (replace_content n) = Some (File b)
      \<and> v = FileVisit (root @ [n]) (expected_target (root @ [n])) SkippedBinary)
   \<and> (wf_tree t \<and> process_directory pf root t = Inr (t', L)
       \<and> lookup t p = Some (File b) \<and> \<not> locale_decodes pf b \<longrightarrow>
      (\<forall>q. final_path t p = Some q \<longrightarrow> lookup t' q = Some (File b))
      \<and> (no_replacement_along pf root t p \<longrightarrow>
           lookup t' (map replace_content p) = Some (File b)))"
proof (intro conjI impI ballI allI)
  fix v p tgt old new
  assume "process_directory pf root t = Inr (t', L)" "v \<in> set L"
    "v = FileVisit p tgt (Updated old new)"
  with run_writes_text[of pf root t t' L v] show "locale_decodes pf old"
    by (simp add: writes_text_def)
next
  assume a: "map_of ds n = Some (File b) \<and> \<not> locale_decodes pf b
       \<and> file_step pf root n ds = Inr (ds', v)"
  with binary_file_step[of ds n b pf root ds' v]
  show "map_of ds' (replace_content n) = Some (File b)"
    and "v = FileVisit (root @ [n]) (expected_target (root @ [n])) SkippedBinary" by blast+
next
  fix q
  assume a: "wf_tree t \<and> process_directory pf root t = Inr (t', L)
       \<and> lookup t p = Some (File b) \<and> \<not> locale_decodes pf b"
    and q: "final_path t p = Some q"
  from a have "is_binary pf (Some (File b))" by (simp add: is_binary_def)
  with entry_tracked[of t pf root t' L p "File b" q] a q
  show "lookup t' q = Some (File b)" by auto
next
  assume a: "wf_tree t \<and> process_directory pf root t = Inr (t', L)
       \<and> lookup t p = Some (File b) \<and> \<not> locale_decodes pf b"
    and quiet: "no_replacement_along pf root t p"
  from a have same: "file_effect pf (File b) = File b"
    by (simp add: file_effect_def rewrite_bytes_def)
  show "lookup t' (map replace_content p) = Some (File b)"
  proof (cases "p = []")
    case True
    with a show ?thesis by auto
  next
    case False
    with entry_kept_along[of t pf root t' L p "File b"] a quiet same show ?thesis by auto
  qed
qed

theorem binary_content_kept_witness:
  "process_directory ascii_unix [''repo''] (Dir sample_entries) = Inr (sample_result, sample_log)
   \<and> locale_decodes ascii_unix sample_text
   \<and> \<not> locale_decodes ascii_unix [0x89, 0x50]
   \<and> file_step ascii_unix [''repo''] ''tools.png'' [(''tools.png'', File [0x89, 0x50])]
       = Inr ([(''agents.png'', File [0x89, 0x50])],
              FileVisit [''repo'', ''tools.png''] (Some [''repo'', ''agents.png'']) SkippedBinary)
   \<and> map_of [(''agents.png'', File [0x89, 0x50])] (replace_content ''tools.png'')
       = Some (File [0x89, 0x50])
   \<and> wf_tree (Dir sibling_entries)
   \<and> process_directory ascii_unix [''repo''] (Dir sibling_entries)
       = Inr (sibling_result, sibling_log)
   \<and> \<not> locale_decodes ascii_unix [0xFE]
   \<and> lookup (Dir sibling_entries) [''A'', ''tools.bin''] = Some (File [0xFE])
   \<and> final_path (Dir sibling_entries) [''A'', ''tools.bin''] = Some [''A'', ''agents.bin'']
   \<and> lookup sibling_result [''A'', ''agents.bin''] = Some (File [0xFE])
   \<and> no_replacement_along ascii_unix [''repo''] (Dir sibling_entries) [''A'', ''tools.bin'']
   \<and> map replace_content [''A'', ''tools.bin''] = [''A'', ''agents.bin'']
   \<and> lookup sibling_result (map replace_content [''A'', ''tools.bin'']) = Some (File [0xFE])
   \<and> \<not> locale_decodes ascii_unix [0xFF]
   \<and> lookup (Dir sibling_entries) [''B'', ''tools.bin''] = Some (File [0xFF])
   \<and> \<not> no_replacement_along ascii_unix [''repo''] (Dir sibling_entries) [''B'', ''tools.bin'']
   \<and> final_path (Dir sibling_entries) [''B'', ''tools.bin''] = Some [''B'', ''agents.bin'']
   \<and> lookup sibling_result [''B'', ''agents.bin''] = Some (File [0xFF])
   \<and> final_path (Dir sibling_entries) [''B'', ''agents.bin''] = None"
proof -
  have bin: "\<not> locale_decodes ascii_unix [0x89, 0x50]" "\<not> locale_decodes ascii_unix [0xFE]"
    "\<not> locale_decodes ascii_unix [0xFF]" by code_simp+
  have step: "file_step ascii_unix [''repo''] ''tools.png'' [(''tools.png'', File [0x89, 0x50])]
       = Inr ([(''agents.png'', File [0x89, 0x50])],
              FileVisit [''repo'', ''tools.png''] (Some [''repo'', ''agents.png'']) SkippedBinary)"
    by code_simp
  have m: "map_of [(''tools.png'', File [0x89, 0x50])] ''tools.png'' = Some (File [0x89, 0x50])"
    by simp
  have upd: "sample_log ! 0 = FileVisit [''repo'', ''biotools'', ''Tool.txt'']
        (Some [''repo'', ''biotools'', ''Agent.txt''])
        (Updated sample_text (map (\<lambda>c. of_nat (of_char c)) ''use agents''))"
    and mem: "sample_log ! 0 \<in> set sample_log"
    by (simp_all add: sample_log_def)
  have wf: "wf_tree (Dir sibling_entries)" by code_simp
  note run = sibling_run
  have lk: "lookup (Dir sibling_entries) [''A'', ''tools.bin''] = Some (File [0xFE])"
    "lookup (Dir sibling_entries) [''B'', ''tools.bin''] = Some (File [0xFF])" by code_simp+
  have fp: "final_path (Dir sibling_entries) [''A'', ''tools.bin''] = Some [''A'', ''agents.bin'']"
    "final_path (Dir sibling_entries) [''B'', ''tools.bin''] = Some [''B'', ''agents.bin'']"
    "final_path (Dir sibling_entries) [''B'', ''agents.bin''] = None" by code_simp+
  have quiet: "no_replacement_along ascii_unix [''repo''] (Dir sibling_entries)
      [''A'', ''tools.bin'']" by code_simp
  have loud: "\<not> no_replacement_along ascii_unix [''repo''] (Dir sibling_entries)
      [''B'', ''tools.bin'']" by code_simp
  have names: "map replace_content [''A'', ''tools.bin''] = [''A'', ''agents.bin'']"
    by code_simp
  note inst = binary_content_kept[where pf = ascii_unix and root = "[''repo'']"
      and ds = "[(''tools.png'', File [0x89, 0x50])]" and n = "''tools.png''"
      and ds' = "[(''agents.png'', File [0x89, 0x50])]"
      and v = "FileVisit [''repo'', ''tools.png''] (Some [''repo'', ''agents.png'']) SkippedBinary"]
  note inst1 = inst[where t = "Dir sample_entries" and t' = sample_result and L = sample_log
      and b = "[0x89, 0x50]"]
  from inst1 sample_run upd mem have 1: "locale_decodes ascii_unix sample_text" by blast
  from inst1 m bin(1) step have 2: "map_of [(''agents.png'', File [0x89, 0x50])]
      (replace_content ''tools.png'') = Some (File [0x89, 0x50])" by blast
  note instA = inst[where t = "Dir sibling_entries" and t' = sibling_result and L = sibling_log
      and b = "[0xFE]" and p = "[''A'', ''tools.bin'']"]
  from instA wf run lk(1) bin(2) fp(1)
  have 3: "lookup sibling_result [''A'', ''agents.bin''] = Some (File [0xFE])" by blast
  from instA wf run lk(1) bin(2) quiet
  have 4: "lookup sibling_result (map replace_content [''A'', ''tools.bin''])
      = Some (File [0xFE])" by blast
  note instB = inst[where t = "Dir sibling_entries" and t' = sibling_result and L = sibling_log
      and b = "[0xFF]" and p = "[''B'', ''tools.bin'']"]
  from instB wf run lk(2) bin(3) fp(2)
  have 5: "lookup sibling_result [''B'', ''agents.bin''] = Some (File [0xFF])" by blast
  from sample_run 1 bin step 2 wf sibling_run lk fp quiet loud names 3 4 5
  show ?thesis by blast
qed

text \<open>
  Claim C5 as first stated, for every tree, fails: where \<open>os.rename\<close> replaces an existing
  file, the rename of \<open>tools.bin\<close> to \<open>agents.bin\<close> replaces the binary file \<open>agents.bin\<close>
  that the walk has visited before, and its bytes are in no file of the tree that is left.
\<close>

theorem binary_file_replaced:
  "\<not> locale_decodes ascii_unix [0xFE]
   \<and> process_directory ascii_unix [''repo'']
        (Dir [(''agents.bin'', File [0xFE]), (''tools.bin'', File [0xFF])])
     = Inr (Dir [(''agents.bin'', File [0xFF])],
            [FileVisit [''repo'', ''agents.bin''] None SkippedBinary,
             FileVisit [''repo'', ''tools.bin''] (Some [''repo'', ''agents.bin''])
               SkippedBinary])"
  by code_simp




text \<open>
  Claim C7. When the target repository is found and \<open>reprocess\<close> is false, \<open>process_repo\<close>
  of gen\_repos.py stops with the outcome \<open>Skipped\<close> and has made no call that changes
  anything: no repository is deleted or created, nothing is removed, cloned, transformed,
  committed or pushed.
\<close>

theorem existing_target_skipped:
  "target_found env \<Longrightarrow> \<not> reprocess \<Longrightarrow>
     process_repo pf env repo github_token target_org_name local_dir reprocess = (Skipped, [])"
  by (simp add: process_repo_def Let_def)

theorem existing_target_skipped_witness:
  "target_found (sample_env\<lparr>target_found := True\<rparr>)
   \<and> process_repo ascii_unix (sample_env\<lparr>target_found := True\<rparr>) sample_repo
        ''token'' ''bio-agents'' [''.''] False = (Skipped, [])"
  using existing_target_skipped[of "sample_env\<lparr>target_found := True\<rparr>" False ascii_unix
      sample_repo "''token''" "''bio-agents''" "[''.'']"]
  by simp

text \<open>
  Claim C8. The push is tried at most three times, with \<open>time.sleep(5)\<close> between two
  attempts. For a run of \<open>process_repo\<close> that reaches the push, the calls are those up to
  the commit and the set-up of the remote and the branch (\<open>before_push\<close>), then the pushes.
  When the first \<open>k\<close> attempts raise, with \<open>k\<close> at most 2, and the next does not,
  \<open>process_repo\<close> makes \<open>k + 1\<close> pushes, with a sleep of 5 seconds after each push that
  raised, then the collaborator grant (when the lookup before it does not raise), and the
  outcome is \<open>Processed\<close>. When three attempts raise, it makes three pushes with a sleep
  of 5 seconds after the first and the second and no call after the third: the outcome
  is \<open>PushFailed\<close> and no collaborator grant is among its calls.
\<close>

theorem push_retry:
  assumes "\<not> (target_found env \<and> \<not> reprocess)" and "\<not> create_raises env"
    and "process_directory pf (local_dir @ [camel_to_kebab (replace_content (repo_name repo))])
           (strip_git (cloned env)) = Inr (tree, visits)"
  shows
    "(let new_repo_name = camel_to_kebab (replace_content (repo_name repo));
          local_repo_path = local_dir @ [new_repo_name];
          new_remote_url = ''https://'' @ github_token @ ''@github.com/'' @ target_org_name
                             @ ''/'' @ new_repo_name @ ''.git'';
          current_branch = (case active_branch env of Some b \<Rightarrow> b | None \<Rightarrow> ''main'');
          before_push =
            (if target_found env
             then (if delete_raises env then [DeleteRepo new_repo_name]
                   else [DeleteRepo new_repo_name, Sleep 5])
             else [])
            @ [CreateRepo new_repo_name, Sleep 5]
            @ (if local_path_exists env then [RmTree local_repo_path] else [])
            @ [CloneFrom (clone_url repo) local_repo_path]
            @ (if git_dir_exists (cloned env) then [RmTree (local_repo_path @ [''.git''])] else [])
            @ [InitRepo local_repo_path, AddAll, Commit ''Update content and rename'' tree]
            @ (if origin_found env then [SetUrl new_remote_url]
               else [CreateRemote ''origin'' new_remote_url])
            @ (case active_branch env of Some b \<Rightarrow> [] | None \<Rightarrow> [CheckoutNew ''main''])
      in (k \<le> 2 \<and> (\<forall>i<k. push_raises env i) \<and> \<not> push_raises env k \<longrightarrow>
            process_repo pf env repo github_token target_org_name local_dir reprocess =
              (Processed,
               before_push
               @ concat (replicate k [Push current_branch, Sleep 5]) @ [Push current_branch]
               @ (if grant_lookup_raises env then []
                  else [AddCollaborator new_repo_name ''chenxingqiang'' ''admin''])))
         \<and> (push_raises env 0 \<and> push_raises env 1 \<and> push_raises env 2 \<longrightarrow>
            process_repo pf env repo github_token target_org_name local_dir reprocess =
              (PushFailed,
               before_push
               @ [Push current_branch, Sleep 5, Push current_branch, Sleep 5,
                  Push current_branch])
            \<and> (\<forall>n a p. AddCollaborator n a p \<notin> set before_push)))"
  unfolding Let_def
proof (intro conjI impI)
  assume k: "k \<le> 2 \<and> (\<forall>i<k. push_raises env i) \<and> \<not> push_raises env k"
  then have ok: "\<And>b. push_loop (push_raises env) b [0..<3] =
      (True, concat (replicate k [Push b, Sleep 5]) @ [Push b])"
    by (simp add: push_loop_succeeds)
  show "process_repo pf env repo github_token target_org_name local_dir reprocess =
    (Processed,
     ((if target_found env
       then if delete_raises env
            then [DeleteRepo (camel_to_kebab (replace_content (repo_name repo)))]
            else [DeleteRepo (camel_to_kebab (replace_content (repo_name repo))), Sleep 5]
       else []) @
      [CreateRepo (camel_to_kebab (replace_content (repo_name repo))), Sleep 5] @
      (if local_path_exists env
       then [RmTree (local_dir @ [camel_to_kebab (replace_content (repo_name repo))])] else []) @
      [CloneFrom (clone_url repo)
        (local_dir @ [camel_to_kebab (replace_content (repo_name repo))])] @
      (if git_dir_exists (cloned env)
       then [RmTree ((local_dir @ [camel_to_kebab (replace_content (repo_name repo))]) @ [''.git''])]
       else []) @
      [InitRepo (local_dir @ [camel_to_kebab (replace_content (repo_name repo))]), AddAll,
       Commit ''Update content and rename'' tree] @
      (if origin_found env
       then [SetUrl (''https://'' @ github_token @ ''@github.com/'' @ target_org_name @ ''/'' @
                camel_to_kebab (replace_content (repo_name repo)) @ ''.git'')]
       else [CreateRemote ''origin''
              (''https://'' @ github_token @ ''@github.com/'' @ target_org_name @ ''/'' @
                camel_to_kebab (replace_content (repo_name repo)) @ ''.git'')]) @
      (case active_branch env of None \<Rightarrow> [CheckoutNew ''main''] | Some b \<Rightarrow> [])) @
     concat (replicate k
        [Push (case active_branch env of None \<Rightarrow> ''main'' | Some b \<Rightarrow> b), Sleep 5]) @
     [Push (case active_branch env of None \<Rightarrow> ''main'' | Some b \<Rightarrow> b)] @
     (if grant_lookup_raises env then []
      else [AddCollaborator (camel_to_kebab (replace_content (repo_name repo)))
             ''chenxingqiang'' ''admin'']))"
    using assms ok by (simp add: process_repo_def Let_def grant_collaborator_def)
next
  assume f: "push_raises env 0 \<and> push_raises env 1 \<and> push_raises env 2"
  then have no: "\<And>b. push_loop (push_raises env) b [0..<3] =
      (False, [Push b, Sleep 5, Push b, Sleep 5, Push b])"
    by (simp add: push_loop_gives_up)
  show "process_repo pf env repo github_token target_org_name local_dir reprocess =
    (PushFailed,
     ((if target_found env
       then if delete_raises env
            then [DeleteRepo (camel_to_kebab (replace_content (repo_name repo)))]
            else [DeleteRepo (camel_to_kebab (replace_content (repo_name repo))), Sleep 5]
       else []) @
      [CreateRepo (camel_to_kebab (replace_content (repo_name repo))), Sleep 5] @
      (if local_path_exists env
       then [RmTree (local_dir @ [camel_to_kebab (replace_content (repo_name repo))])] else []) @
      [CloneFrom (clone_url repo)
        (local_dir @ [camel_to_kebab (replace_content (repo_name repo))])] @
      (if git_dir_exists (cloned env)
       then [RmTree ((local_dir @ [camel_to_kebab (replace_content (repo_name repo))]) @ [''.git''])]
       else []) @
      [InitRepo (local_dir @ [camel_to_kebab (replace_content (repo_name repo))]), AddAll,
       Commit ''Update content and rename'' tree] @
      (if origin_found env
       then [SetUrl (''https://'' @ github_token @ ''@github.com/'' @ target_org_name @ ''/'' @
                camel_to_kebab (replace_content (repo_name repo)) @ ''.git'')]
       else [CreateRemote ''origin''
              (''https://'' @ github_token @ ''@github.com/'' @ target_org_name @ ''/'' @
                camel_to_kebab (replace_content (repo_name repo)) @ ''.git'')]) @
      (case active_branch env of None \<Rightarrow> [CheckoutNew ''main''] | Some b \<Rightarrow> [])) @
     [Push (case active_branch env of None \<Rightarrow> ''main'' | Some b \<Rightarrow> b), Sleep 5,
      Push (case active_branch env of None \<Rightarrow> ''main'' | Some b \<Rightarrow> b), Sleep 5,
      Push (case active_branch env of None \<Rightarrow> ''main'' | Some b \<Rightarrow> b)])"
    using assms no by (simp add: process_repo_def Let_def)
next
  fix n a p
  show "\<forall>n a p.
       AddCollaborator n a p
       \<notin> set ((if target_found env
                 then if delete_raises env
                      then [DeleteRepo (camel_to_kebab (replace_content (repo_name repo)))]
                      else [DeleteRepo (camel_to_kebab (replace_content (repo_name repo))),
                            Sleep 5]
                 else []) @
                [CreateRepo (camel_to_kebab (replace_content (repo_name repo))), Sleep 5] @
                (if local_path_exists env
                 then [RmTree (local_dir @ [camel_to_kebab (replace_content (repo_name repo))])]
                 else []) @
                [CloneFrom (clone_url repo)
                  (local_dir @ [camel_to_kebab (replace_content (repo_name repo))])] @
                (if git_dir_exists (cloned env)
                 then [RmTree
                        ((local_dir @ [camel_to_kebab (replace_content (repo_name repo))]) @
                         [''.git''])]
                 else []) @
                [InitRepo (local_dir @ [camel_to_kebab (replace_content (repo_name repo))]),
                 AddAll, Commit ''Update content and rename'' tree] @
                (if origin_found env
                 then [SetUrl
                        (''https://'' @
                         github_token @
                         ''@github.com/'' @
                         target_org_name @
                         ''/'' @ camel_to_kebab (replace_content (repo_name repo)) @ ''.git'')]
                 else [CreateRemote ''origin''
                        (''https://'' @
                         github_token @
                         ''@github.com/'' @
                         target_org_name @
                         ''/'' @ camel_to_kebab (replace_content (repo_name repo)) @ ''.git'')]) @
                (case active_branch env of None \<Rightarrow> [CheckoutNew ''main''] | Some b \<Rightarrow> []))"
    by (simp split: option.splits)
qed


theorem push_retry_witness:
  "process_directory ascii_unix
       ([''.''] @ [camel_to_kebab (replace_content (repo_name sample_repo))])
       (strip_git (cloned sample_env))
     = Inr (Dir [(''BioAgents.md'', File [])],
            [FileVisit [''.'', ''bio-agents'', ''BioTools.md'']
               (Some [''.'', ''bio-agents'', ''BioAgents.md'']) Unchanged])
   \<and> push_raises sample_env 0 \<and> push_raises sample_env 1 \<and> \<not> push_raises sample_env 2
   \<and> process_repo ascii_unix sample_env sample_repo ''token'' ''bio-agents'' [''.''] False
       = (Processed,
          [CreateRepo ''bio-agents'', Sleep 5,
           CloneFrom ''https://github.com/bio-tools/BioTools.git'' [''.'', ''bio-agents''],
           RmTree [''.'', ''bio-agents'', ''.git''],
           InitRepo [''.'', ''bio-agents''], AddAll,
           Commit ''Update content and rename'' (Dir [(''BioAgents.md'', File [])]),
           CreateRemote ''origin'' ''https://token@github.com/bio-agents/bio-agents.git'',
           CheckoutNew ''main'',
           Push ''main'', Sleep 5, Push ''main'', Sleep 5, Push ''main'',
           AddCollaborator ''bio-agents'' ''chenxingqiang'' ''admin''])
   \<and> push_raises failing_env 0 \<and> push_raises failing_env 1 \<and> push_raises failing_env 2
   \<and> process_repo ascii_unix failing_env sample_repo ''token'' ''bio-agents'' [''.''] False
       = (PushFailed,
          [CreateRepo ''bio-agents'', Sleep 5,
           CloneFrom ''https://github.com/bio-tools/BioTools.git'' [''.'', ''bio-agents''],
           RmTree [''.'', ''bio-agents'', ''.git''],
           InitRepo [''.'', ''bio-agents''], AddAll,
           Commit ''Update content and rename'' (Dir [(''BioAgents.md'', File [])]),
           CreateRemote ''origin'' ''https://token@github.com/bio-agents/bio-agents.git'',
           CheckoutNew ''main'',
           Push ''main'', Sleep 5, Push ''main'', Sleep 5, Push ''main''])"
proof -
  have run: "process_directory ascii_unix
       ([''.''] @ [camel_to_kebab (replace_content (repo_name sample_repo))])
       (strip_git (cloned sample_env))
     = Inr (Dir [(''BioAgents.md'', File [])],
            [FileVisit [''.'', ''bio-agents'', ''BioTools.md'']
               (Some [''.'', ''bio-agents'', ''BioAgents.md'']) Unchanged])"
    by code_simp
  have run': "process_directory ascii_unix
       ([''.''] @ [camel_to_kebab (replace_content (repo_name sample_repo))])
       (strip_git (cloned failing_env))
     = Inr (Dir [(''BioAgents.md'', File [])],
            [FileVisit [''.'', ''bio-agents'', ''BioTools.md'']
               (Some [''.'', ''bio-agents'', ''BioAgents.md'']) Unchanged])"
    by code_simp
  have env: "\<not> (target_found sample_env \<and> \<not> False)" "\<not> create_raises sample_env"
    "push_raises sample_env 0 \<and> push_raises sample_env 1 \<and> \<not> push_raises sample_env 2"
    by (simp_all add: sample_env_def)
  have env': "\<not> (target_found failing_env \<and> \<not> False)" "\<not> create_raises failing_env"
    "push_raises failing_env 0 \<and> push_raises failing_env 1 \<and> push_raises failing_env 2"
    by (simp_all add: failing_env_def sample_env_def)
  have k: "(2::nat) \<le> 2 \<and> (\<forall>i<2. push_raises sample_env i) \<and> \<not> push_raises sample_env 2"
    by (simp add: sample_env_def)
  have name: "camel_to_kebab (replace_content (repo_name sample_repo)) = ''bio-agents''"
    by code_simp
  have git: "git_dir_exists (cloned sample_env)" "git_dir_exists (cloned failing_env)"
    by code_simp+
  have fields: "\<not> target_found sample_env" "\<not> local_path_exists sample_env"
    "\<not> origin_found sample_env" "active_branch sample_env = None"
    "\<not> grant_lookup_raises sample_env"
    "\<not> target_found failing_env" "\<not> local_path_exists failing_env"
    "\<not> origin_found failing_env" "active_branch failing_env = None"
    "clone_url sample_repo = ''https://github.com/bio-tools/BioTools.git''"
    by (simp_all add: sample_env_def failing_env_def sample_repo_def)
  have rep: "concat (replicate 2 [Push ''main'', Sleep 5]) @ [Push ''main'']
      = [Push ''main'', Sleep 5, Push ''main'', Sleep 5, Push ''main'']"
    by (simp add: numeral_2_eq_2)
  from push_retry[OF env(1,2) run, where k = 2 and github_token = "''token''"
      and target_org_name = "''bio-agents''"] k
  have a: "process_repo ascii_unix sample_env sample_repo ''token'' ''bio-agents'' [''.''] False
       = (Processed,
          [CreateRepo ''bio-agents'', Sleep 5,
           CloneFrom ''https://github.com/bio-tools/BioTools.git'' [''.'', ''bio-agents''],
           RmTree [''.'', ''bio-agents'', ''.git''],
           InitRepo [''.'', ''bio-agents''], AddAll,
           Commit ''Update content and rename'' (Dir [(''BioAgents.md'', File [])]),
           CreateRemote ''origin'' ''https://token@github.com/bio-agents/bio-agents.git'',
           CheckoutNew ''main'',
           Push ''main'', Sleep 5, Push ''main'', Sleep 5, Push ''main'',
           AddCollaborator ''bio-agents'' ''chenxingqiang'' ''admin''])"
    unfolding Let_def name by (simp add: fields git numeral_2_eq_2)
  from push_retry[OF env'(1,2) run', where k = 2 and github_token = "''token''"
      and target_org_name = "''bio-agents''"] env'(3)
  have b: "process_repo ascii_unix failing_env sample_repo ''token'' ''bio-agents'' [''.''] False
       = (PushFailed,
          [CreateRepo ''bio-agents'', Sleep 5,
           CloneFrom ''https://github.com/bio-tools/BioTools.git'' [''.'', ''bio-agents''],
           RmTree [''.'', ''bio-agents'', ''.git''],
           InitRepo [''.'', ''bio-agents''], AddAll,
           Commit ''Update content and rename'' (Dir [(''BioAgents.md'', File [])]),
           CreateRemote ''origin'' ''https://token@github.com/bio-agents/bio-agents.git'',
           CheckoutNew ''main'',
           Push ''main'', Sleep 5, Push ''main'', Sleep 5, Push ''main''])"
    unfolding Let_def name by (simp add: fields git)
  from a b run env(3) env'(3) show ?thesis by simp
qed

text \<open>
  Claim C9 (as amended). The last rule, \<open>bio.tools\<close> to \<open>hub.bioagents.tech\<close>, never fires:
  the first rule removes every \<open>.tools\<close> and no later rule brings one back, so the text
  that reaches the last rule holds no \<open>bio.tools\<close>, and \<open>replace_content\<close> equals the run of
  the first eleven rules.
\<close>

theorem final_rule_dead:
  "last replacements = (''bio.tools'', ''hub.bioagents.tech'')
   \<and> \<not> sublist ''.tools'' (apply_rules (butlast replacements) content)
   \<and> \<not> sublist ''bio.tools'' (apply_rules (butlast replacements) content)
   \<and> replace_content content = apply_rules (butlast replacements) content"
proof -
  have l: "last replacements = (''bio.tools'', ''hub.bioagents.tech'')"
    by (simp add: replacements_def)
  have a: "\<not> sublist ''.tools'' (apply_rules (butlast replacements) content)"
    by (rule dot_tools_absent)
  have "sublist ''.tools'' ''bio.tools''" by code_simp
  with a have b: "\<not> sublist ''bio.tools'' (apply_rules (butlast replacements) content)"
    using sublist_order.order_trans by blast
  have "replacements = butlast replacements @ [(''bio.tools'', ''hub.bioagents.tech'')]"
    by (simp add: replacements_def)
  then have "replace_content content =
      re_sub ''bio.tools'' ''hub.bioagents.tech'' (apply_rules (butlast replacements) content)"
    unfolding replace_content_def by (metis apply_rules_snoc)
  with b have "replace_content content = apply_rules (butlast replacements) content"
    by (simp add: re_sub_no_match)
  with l a b show ?thesis by simp
qed

theorem final_rule_dead_witness:
  "replace_content ''see bio.tools'' = apply_rules (butlast replacements) ''see bio.tools''
   \<and> replace_content ''see bio.tools'' = ''see bio.agents''"
proof -
  have "replace_content ''see bio.tools'' = ''see bio.agents''" by code_simp
  with final_rule_dead[of "''see bio.tools''"] show ?thesis by simp
qed

text \<open>
  Claim C9 as first stated, with no \<open>tools\<close> left when the last rule is reached, fails:
  \<open>toolools\<close> holds no \<open>tools\<close> after the first two rules, the third rule turns it into
  \<open>agentools\<close>, and \<open>tools\<close> is there when the last rule is reached.
\<close>

theorem tools_reintroduced:
  "\<not> sublist ''tools'' (apply_rules (take 2 replacements) ''toolools'')
   \<and> apply_rules (take 3 replacements) ''toolools'' = ''agentools''
   \<and> sublist ''tools'' (apply_rules (butlast replacements) ''toolools'')"
  by code_simp

text \<open>
  Claim C10. In re\_in\_repos.py, when the local copy exists and the repository is dirty,
  \<open>process_repo\<close> returns at once: it runs no rename or replace command, commits nothing
  and pushes nothing.
\<close>

theorem dirty_repo_skipped:
  "local_found env \<Longrightarrow> repo_dirty env \<Longrightarrow>
     re_process_repo env name old_str new_str org_name = (SkippedDirty, [])"
  by (simp add: re_process_repo_def is_repo_clean_def Let_def)

theorem dirty_repo_skipped_witness:
  "local_found \<lparr> local_found = True, repo_dirty = True, git_raises = (\<lambda>a. False) \<rparr>
   \<and> repo_dirty \<lparr> local_found = True, repo_dirty = True, git_raises = (\<lambda>a. False) \<rparr>
   \<and> re_process_repo \<lparr> local_found = True, repo_dirty = True, git_raises = (\<lambda>a. False) \<rparr>
        ''biotools-api'' ''tools'' ''agents'' ''bio-agents'' = (SkippedDirty, [])"
  using dirty_repo_skipped[of "\<lparr> local_found = True, repo_dirty = True, git_raises = (\<lambda>a. False) \<rparr>"
      "''biotools-api''" "''tools''" "''agents''" "''bio-agents''"]
  by simp

end
